theory Spec2Isabelle
  imports Main "HOL-Library.Sublist" "HOL-Library.AList" "HOL-Library.Char_ord"
    "HOL-Library.List_Lexorder"
begin

section \<open>Python values used throughout\<close>

text \<open>
  Python text is modelled as \<open>string\<close>.  The exceptions the embedded functions can
  raise are values of \<open>error\<close>; a function that can raise returns \<open>error + 'a\<close>
  with \<open>Inl\<close> for the exception.
\<close>

datatype error =
  IndexError | KeyError | TypeError | NoSuchFormat | IOError | OSError | DatabaseError

text \<open>\<open>str(n)\<close> and \<open>'%d' % n\<close> for a Python integer: its decimal numeral.\<close>

definition digit_char :: "nat \<Rightarrow> char" where
  "digit_char d = ''0123456789'' ! d"

function str_nat :: "nat \<Rightarrow> string" where
  "str_nat n = (if n < 10 then [digit_char n] else str_nat (n div 10) @ [digit_char (n mod 10)])"
  by pat_completeness auto
termination
  by (relation "measure id") auto

declare str_nat.simps [simp del]

definition str_int :: "int \<Rightarrow> string" where
  "str_int i = (if i < 0 then CHR ''-'' # str_nat (nat (- i)) else str_nat (nat i))"

section \<open>Field slots: \<open>DB.initialize_tables\<close>\<close>

text \<open>
  The keys of \<open>FIELD_MAP\<close> are the names of the built-in fields, the numbers of the
  custom columns (\<open>data['num']\<close>, an integer) and, for a series column, the text
  \<open>str(data['num'])+'_index'\<close>.
\<close>

datatype field_key = Name string | Num int

text \<open>
  One entry of \<open>custom_column_label_map\<close>, as \<open>initialize_custom_columns\<close> builds it from
  a row of the \<open>custom_columns\<close> table (\<open>display\<close> and \<open>multiple_seps\<close> are not read by
  the slot assignment and are left out).
\<close>

record custom_column =
  label :: string
  name :: string
  data_type :: string
  editable :: bool
  normalized :: bool
  num :: int
  is_multiple :: bool

text \<open>The literal that \<open>initialize_tables\<close> assigns to \<open>self.FIELD_MAP\<close>.\<close>

definition builtin_FIELD_MAP :: "(field_key \<times> nat) list" where
  "builtin_FIELD_MAP =
    [(Name ''id'', 0), (Name ''title'', 1), (Name ''authors'', 2), (Name ''timestamp'', 3),
     (Name ''size'', 4), (Name ''rating'', 5), (Name ''tags'', 6), (Name ''comments'', 7),
     (Name ''series'', 8), (Name ''publisher'', 9), (Name ''series_index'', 10),
     (Name ''sort'', 11), (Name ''author_sort'', 12), (Name ''formats'', 13),
     (Name ''path'', 14), (Name ''pubdate'', 15), (Name ''uuid'', 16), (Name ''cover'', 17),
     (Name ''au_map'', 18), (Name ''last_modified'', 19), (Name ''identifiers'', 20),
     (Name ''languages'', 21)]"

text \<open>\<open>base = max(self.FIELD_MAP.itervalues())\<close>\<close>

definition max_slot :: "(field_key \<times> nat) list \<Rightarrow> nat" where
  "max_slot kvs = fold max (map snd kvs) 0"

text \<open>
  The loop \<open>for label_, data in self.custom_column_label_map.iteritems()\<close>.  The
  dictionary is given as the list of its items in the order \<open>iteritems()\<close> yields them;
  the loop carries \<open>FIELD_MAP\<close> and \<open>base\<close>.
\<close>

fun assign_custom ::
  "(string \<times> custom_column) list \<Rightarrow> (field_key \<rightharpoonup> nat) \<times> nat \<Rightarrow> (field_key \<rightharpoonup> nat) \<times> nat"
where
  "assign_custom [] st = st"
| "assign_custom ((lbl, data) # rest) (fm, base) =
     (let base1 = base + 1;
          fm1 = fm(Num (num data) \<mapsto> base1)
      in if data_type data = ''series''
         then (let base2 = base1 + 1;
                   fm2 = fm1(Name (str_int (num data) @ ''_index'') \<mapsto> base2)
               in assign_custom rest (fm2, base2))
         else assign_custom rest (fm1, base1))"

text \<open>
  \<open>initialize_tables\<close>, as far as \<open>FIELD_MAP\<close> goes: the literal, the custom columns,
  then \<open>ondevice\<close>, \<open>marked\<close> and \<open>series_sort\<close> on the slots that follow.
\<close>

definition initialize_tables :: "(string \<times> custom_column) list \<Rightarrow> (field_key \<rightharpoonup> nat)" where
  "initialize_tables custom_column_label_map =
     (let (fm, base) = assign_custom custom_column_label_map
                         (map_of builtin_FIELD_MAP, max_slot builtin_FIELD_MAP);
          base = base + 1; fm = fm(Name ''ondevice'' \<mapsto> base);
          base = base + 1; fm = fm(Name ''marked'' \<mapsto> base);
          base = base + 1; fm = fm(Name ''series_sort'' \<mapsto> base)
      in fm)"

text \<open>
  The number of slots a custom column takes, and the number of slots taken by the columns
  that come before position \<open>i\<close> of the iteration.
\<close>

definition slot_width :: "custom_column \<Rightarrow> nat" where
  "slot_width data = (if data_type data = ''series'' then 2 else 1)"

definition slots_before :: "(string \<times> custom_column) list \<Rightarrow> nat \<Rightarrow> nat" where
  "slots_before cols i = sum_list (map (slot_width \<circ> snd) (take i cols))"

text \<open>The keys the loop over the custom columns writes.\<close>

definition custom_keys :: "(string \<times> custom_column) list \<Rightarrow> field_key set" where
  "custom_keys cols = (\<Union>(l, d) \<in> set cols. {Num (num d), Name (str_int (num d) @ ''_index'')})"

text \<open>
  The reading of the specification: the slots of the custom columns ascend in the order of
  their labels.
\<close>

definition slots_label_sorted :: "(string \<times> custom_column) list \<Rightarrow> (field_key \<rightharpoonup> nat) \<Rightarrow> bool" where
  "slots_label_sorted cols fm =
     sorted_wrt (<) (map (\<lambda>(l, d). the (fm (Num (num d)))) (sort_key fst cols))"

text \<open>Custom-column definitions used in the examples.\<close>

definition text_column :: "string \<Rightarrow> int \<Rightarrow> string \<times> custom_column" where
  "text_column l n = (l, \<lparr>label = l, name = l, data_type = ''text'', editable = True,
     normalized = True, num = n, is_multiple = False\<rparr>)"

definition series_column :: "string \<Rightarrow> int \<Rightarrow> string \<times> custom_column" where
  "series_column l n = (l, \<lparr>label = l, name = l, data_type = ''series'', editable = True,
     normalized = True, num = n, is_multiple = False\<rparr>)"

section \<open>The preference store: \<open>DBPrefs\<close>\<close>

text \<open>
  \<open>DBPrefs\<close> is a Python dictionary (the in-memory mirror) in front of the table
  \<open>preferences (key, val)\<close>, whose column \<open>key\<close> is unique.  The record holds both: the
  rows of the table, the items of the dictionary, the \<open>defaults\<close> and the flag
  \<open>disable_setting\<close>.  The store is polymorphic in the type \<open>'v\<close> of the Python values it
  holds.

  The two conversions go through the \<open>json\<close> module and the hooks \<open>to_json\<close> and
  \<open>from_json\<close>, none of which is part of these sources: \<open>to_raw\<close> is
  \<open>json.dumps(val, indent=2, default=to_json)\<close>, which raises for a value that cannot be
  serialised, and \<open>raw_to_object\<close> is \<open>json.loads(raw, object_hook=from_json)\<close>, which raises
  for a text it cannot read.  They are parameters of the model.
\<close>

record 'v codec =
  to_raw :: "'v \<Rightarrow> error + string"
  raw_to_object :: "string \<Rightarrow> error + 'v"

record 'v DBPrefs =
  preferences :: "(string \<times> string) list"
  items :: "string \<rightharpoonup> 'v"
  defaults :: "string \<rightharpoonup> 'v"
  disable_setting :: bool

text \<open>
  \<open>__init__\<close>: the loop over \<open>SELECT key,val FROM preferences\<close>.  A row whose value cannot
  be read is skipped (\<open>continue\<close>).
\<close>

fun load_rows :: "'v codec \<Rightarrow> (string \<times> string) list \<Rightarrow> (string \<rightharpoonup> 'v) \<Rightarrow> (string \<rightharpoonup> 'v)" where
  "load_rows c [] d = d"
| "load_rows c ((key, val) # rows) d =
     (case raw_to_object c val of
        Inl e \<Rightarrow> load_rows c rows d
      | Inr v \<Rightarrow> load_rows c rows (d(key \<mapsto> v)))"

definition DBPrefs_init :: "'v codec \<Rightarrow> (string \<times> string) list \<Rightarrow> 'v DBPrefs" where
  "DBPrefs_init c rows =
     \<lparr>preferences = rows, items = load_rows c rows Map.empty, defaults = Map.empty,
      disable_setting = False\<rparr>"

text \<open>
  \<open>conn.execute('INSERT OR REPLACE INTO preferences (key,val) VALUES (?,?)', (key, raw))\<close>:
  the row with this key, if there is one, is replaced.  The statement runs in autocommit
  mode and is atomic; the engine can refuse it (a busy or failing database), which the
  argument \<open>refused\<close> tells, and then the table is as it was.
\<close>

definition insert_or_replace ::
  "bool \<Rightarrow> string \<Rightarrow> string \<Rightarrow> (string \<times> string) list \<Rightarrow> error + (string \<times> string) list"
where
  "insert_or_replace refused key raw rows =
     (if refused then Inl DatabaseError
      else Inr (filter (\<lambda>(k, v). k \<noteq> key) rows @ [(key, raw)]))"

text \<open>
  \<open>__setitem__\<close>, statement by statement.  The result lists the states the store passes
  through, the state at the call first, and gives the exception that ended the call, if
  one did.  A crash of the process leaves the store in one of the listed states.
\<close>

definition setitem_trace ::
  "'v codec \<Rightarrow> bool \<Rightarrow> string \<Rightarrow> 'v \<Rightarrow> 'v DBPrefs \<Rightarrow> 'v DBPrefs list \<times> error option"
where
  "setitem_trace c refused key val p =
     (if disable_setting p then ([p], None)
      else case to_raw c val of
        Inl e \<Rightarrow> ([p], Some e)
      | Inr raw \<Rightarrow>
          (case insert_or_replace refused key raw (preferences p) of
             Inl e \<Rightarrow> ([p], Some e)
           | Inr rows \<Rightarrow>
               (let p1 = p\<lparr>preferences := rows\<rparr>;
                    p2 = p1\<lparr>items := (items p1)(key \<mapsto> val)\<rparr>
                in ([p, p1, p2], None))))"

text \<open>The call itself: the state it ends in and the exception it raised, if any.\<close>

definition DBPrefs_setitem ::
  "'v codec \<Rightarrow> bool \<Rightarrow> string \<Rightarrow> 'v \<Rightarrow> 'v DBPrefs \<Rightarrow> 'v DBPrefs \<times> error option"
where
  "DBPrefs_setitem c refused key val p =
     (let (states, exc) = setitem_trace c refused key val p in (last states, exc))"

definition DBPrefs_set ::
  "'v codec \<Rightarrow> bool \<Rightarrow> string \<Rightarrow> 'v \<Rightarrow> 'v DBPrefs \<Rightarrow> 'v DBPrefs \<times> error option"
where
  "DBPrefs_set c refused key val p = DBPrefs_setitem c refused key val p"

text \<open>
  \<open>get(key)\<close> is the method of \<open>dict\<close>: it reads the items and answers \<open>None\<close> for a
  missing key, without consulting \<open>defaults\<close>.  \<open>__getitem__\<close> falls back on \<open>defaults\<close>
  and raises \<open>KeyError\<close> when the key is in neither.
\<close>

definition DBPrefs_get :: "'v DBPrefs \<Rightarrow> string \<Rightarrow> 'v option" where
  "DBPrefs_get p key = items p key"

definition DBPrefs_getitem :: "'v DBPrefs \<Rightarrow> string \<Rightarrow> error + 'v" where
  "DBPrefs_getitem p key =
     (case items p key of
        Some v \<Rightarrow> Inr v
      | None \<Rightarrow> (case defaults p key of Some v \<Rightarrow> Inr v | None \<Rightarrow> Inl KeyError))"

text \<open>
  The codec at the JSON booleans, where \<open>json.dumps\<close> writes \<open>true\<close> and \<open>false\<close>; used in
  the examples (the preference \<open>bools_are_tristate\<close> is such a value).
\<close>

definition bool_codec :: "bool codec" where
  "bool_codec =
     \<lparr>to_raw = (\<lambda>b. Inr (if b then ''true'' else ''false'')),
      raw_to_object = (\<lambda>raw. if raw = ''true'' then Inr True
                              else if raw = ''false'' then Inr False else Inl TypeError)\<rparr>"

section \<open>Paths, the file system and the platform\<close>

text \<open>
  \<open>posixpath.join\<close>, \<open>str.split('/')\<close> and \<open>posixpath.dirname\<close>, as the Python 2.7
  library defines them.
\<close>

definition join1 :: "string \<Rightarrow> string \<Rightarrow> string" where
  "join1 path b =
     (if b \<noteq> [] \<and> hd b = CHR ''/'' then b
      else if path = [] \<or> last path = CHR ''/'' then path @ b
      else path @ ''/'' @ b)"

definition path_join :: "string \<Rightarrow> string list \<Rightarrow> string" where
  "path_join a p = foldl join1 a p"

fun split_slash :: "string \<Rightarrow> string list" where
  "split_slash [] = [[]]"
| "split_slash (c # cs) =
     (if c = CHR ''/'' then [] # split_slash cs
      else (case split_slash cs of w # ws \<Rightarrow> (c # w) # ws | [] \<Rightarrow> [[c]]))"

definition dirname :: "string \<Rightarrow> string" where
  "dirname p =
     (let head = rev (dropWhile (\<lambda>c. c \<noteq> CHR ''/'') (rev p))
      in if head \<noteq> [] \<and> head \<noteq> replicate (length head) CHR ''/''
         then rev (dropWhile (\<lambda>c. c = CHR ''/'') (rev head))
         else head)"

text \<open>
  The file system: the regular files with their contents and the directories, each under
  its path; two paths name the same file when they are equal (a case-sensitive file
  system without links, every path written in one way).  \<open>unreadable\<close> lists the paths
  that cannot be opened for reading, \<open>unwritable\<close> those that cannot be created, written,
  renamed or removed; \<open>hardlinks\<close> tells whether the volume supports hard links.  A hard
  link is modelled as a second file with the content of the first.
\<close>

record filesystem =
  files :: "(string \<times> string) list"
  dirs :: "string list"
  unreadable :: "string list"
  unwritable :: "string list"
  hardlinks :: bool

definition path_exists :: "filesystem \<Rightarrow> string \<Rightarrow> bool" where
  "path_exists fs p \<longleftrightarrow> p \<in> fst ` set (files fs) \<or> p \<in> set (dirs fs)"

definition samefile :: "filesystem \<Rightarrow> string \<Rightarrow> string \<Rightarrow> bool" where
  "samefile fs a b \<longleftrightarrow> a = b \<and> path_exists fs a"

text \<open>\<open>os.access(path, os.R_OK)\<close>\<close>

definition access_R :: "filesystem \<Rightarrow> string \<Rightarrow> bool" where
  "access_R fs p \<longleftrightarrow> path_exists fs p \<and> p \<notin> set (unreadable fs)"

text \<open>\<open>lopen(path, 'rb')\<close> followed by reading the file: its content, or \<open>IOError\<close>.\<close>

definition lopen_rb :: "filesystem \<Rightarrow> string \<Rightarrow> error + string" where
  "lopen_rb fs p =
     (case map_of (files fs) p of
        None \<Rightarrow> Inl IOError
      | Some content \<Rightarrow> if p \<in> set (unreadable fs) then Inl IOError else Inr content)"

text \<open>\<open>lopen(dest, 'wb')\<close> followed by writing \<open>content\<close>.\<close>

definition write_file :: "filesystem \<Rightarrow> string \<Rightarrow> string \<Rightarrow> error + filesystem" where
  "write_file fs dest content =
     (if dest \<in> set (unwritable fs) \<or> dest \<in> set (dirs fs) \<or> dirname dest \<notin> set (dirs fs)
      then Inl IOError
      else Inr (fs\<lparr>files := AList.update dest content (files fs)\<rparr>))"

text \<open>\<open>hardlink_file(src, dest)\<close>: \<open>os.link\<close>, which refuses an existing destination.\<close>

definition hardlink_file :: "filesystem \<Rightarrow> string \<Rightarrow> string \<Rightarrow> error + filesystem" where
  "hardlink_file fs src dest =
     (case map_of (files fs) src of
        None \<Rightarrow> Inl OSError
      | Some content \<Rightarrow>
          if \<not> hardlinks fs \<or> path_exists fs dest \<or> dest \<in> set (unwritable fs)
             \<or> dirname dest \<notin> set (dirs fs)
          then Inl OSError
          else Inr (fs\<lparr>files := AList.update dest content (files fs)\<rparr>))"

text \<open>\<open>shutil.copyfile(src, dst)\<close>\<close>

definition copyfile :: "filesystem \<Rightarrow> string \<Rightarrow> string \<Rightarrow> error + filesystem" where
  "copyfile fs src dst =
     (if samefile fs src dst then Inl IOError
      else case lopen_rb fs src of
        Inl e \<Rightarrow> Inl e
      | Inr content \<Rightarrow> write_file fs dst content)"

text \<open>\<open>os.makedirs(path)\<close>: the directory and every missing directory above it.\<close>

definition path_prefixes :: "string \<Rightarrow> string list" where
  "path_prefixes p = [take i p. i \<leftarrow> [1..<length p], p ! i = CHR ''/''] @ [p]"

definition makedirs :: "filesystem \<Rightarrow> string \<Rightarrow> error + filesystem" where
  "makedirs fs p =
     (if path_exists fs p \<or> p \<in> set (unwritable fs) then Inl OSError
      else Inr (fs\<lparr>dirs := dirs fs @ [d \<leftarrow> path_prefixes p. d \<notin> set (dirs fs)]\<rparr>))"

text \<open>A path lies in the tree at \<open>root\<close> when it is \<open>root\<close> or lies below it.\<close>

definition in_tree :: "string \<Rightarrow> string \<Rightarrow> bool" where
  "in_tree root p \<longleftrightarrow> p = root \<or> prefix (root @ ''/'') p"

text \<open>
  \<open>delete_tree(path, permanent)\<close>: the tree at \<open>path\<close> goes, to the recycle bin or for
  good; in both cases it is no longer in the library.
\<close>

definition delete_tree :: "filesystem \<Rightarrow> string \<Rightarrow> bool \<Rightarrow> error + filesystem" where
  "delete_tree fs path permanent =
     (if \<not> path_exists fs path \<or> path \<in> set (unwritable fs) then Inl OSError
      else Inr (fs\<lparr>files := filter (\<lambda>(p, c). \<not> in_tree path p) (files fs),
                   dirs := filter (\<lambda>p. \<not> in_tree path p) (dirs fs)\<rparr>))"

text \<open>\<open>os.listdir(path)\<close>: the names of the entries of the directory.\<close>

definition listdir :: "filesystem \<Rightarrow> string \<Rightarrow> error + string list" where
  "listdir fs d =
     (if d \<notin> set (dirs fs) then Inl OSError
      else Inr (remdups
        [takeWhile (\<lambda>c. c \<noteq> CHR ''/'') (drop (length d + 1) p).
           p \<leftarrow> map fst (files fs) @ dirs fs, prefix (d @ ''/'') p]))"

text \<open>
  \<open>os.rename(src, dst)\<close>: the entry at \<open>src\<close>, with everything below it, moves to \<open>dst\<close>; a
  regular file may replace a regular file, any other existing destination is refused.
\<close>

definition moved :: "string \<Rightarrow> string \<Rightarrow> string \<Rightarrow> string" where
  "moved src dst p = (if in_tree src p then dst @ drop (length src) p else p)"

definition os_rename :: "filesystem \<Rightarrow> string \<Rightarrow> string \<Rightarrow> error + filesystem" where
  "os_rename fs src dst =
     (if \<not> path_exists fs src \<or> src \<in> set (unwritable fs) \<or> dst \<in> set (unwritable fs)
      then Inl OSError
      else if src = dst then Inr fs
      else if path_exists fs dst \<and> \<not> (src \<in> fst ` set (files fs) \<and> dst \<in> fst ` set (files fs))
      then Inl OSError
      else Inr (fs\<lparr>files := map (\<lambda>(p, c). (moved src dst p, c)) (AList.delete dst (files fs)),
                   dirs := map (moved src dst) (dirs fs)\<rparr>))"

text \<open>
  The platform and the collaborators the storage engine consumes, none of which is part
  of these sources; they are parameters of the model: the platform flag \<open>iswindows\<close>; the
  sanitizer \<open>ascii_filename\<close>; the translation function \<open>_\<close>; the method \<open>lower()\<close> of
  Python text and \<open>icu_lower\<close>; \<open>os.path.abspath\<close>, \<open>os.path.realpath\<close> and
  \<open>os.path.normcase\<close>; \<open>glob.glob\<close>; the chunk size \<open>SPOOL_SIZE\<close>; the function that maps
  a byte sequence to the hexadecimal SHA-256 digest of it; the character that stands for
  U+FFFD, which \<open>decode('ascii', 'replace')\<close> puts for a byte outside ASCII; and the
  operations of \<open>WindowsAtomicFolderMove\<close> (opening the handles of a folder, copying one of
  its files, deleting the originals).
\<close>

record env =
  iswindows :: bool
  ascii_filename :: "string \<Rightarrow> string"
  translate :: "string \<Rightarrow> string"
  str_lower :: "string \<Rightarrow> string"
  icu_lower :: "string \<Rightarrow> string"
  abspath :: "string \<Rightarrow> string"
  realpath :: "string \<Rightarrow> string"
  normcase :: "string \<Rightarrow> string"
  glob :: "filesystem \<Rightarrow> string \<Rightarrow> error + string list"
  SPOOL_SIZE :: nat
  sha256_hexdigest :: "string \<Rightarrow> string"
  replacement :: char
  wam_open :: "filesystem \<Rightarrow> string \<Rightarrow> error + unit"
  wam_copy_path_to :: "filesystem \<Rightarrow> string \<Rightarrow> string \<Rightarrow> error + filesystem"
  wam_delete_originals :: "filesystem \<Rightarrow> string \<Rightarrow> error + filesystem"

text \<open>The attributes of \<open>DB\<close> the embedded methods read.\<close>

record DB =
  library_path :: string
  is_case_sensitive :: bool

text \<open>\<open>PATH_LIMIT = 40 if iswindows else 100\<close>\<close>

definition PATH_LIMIT :: "env \<Rightarrow> nat" where
  "PATH_LIMIT E = (if iswindows E then 40 else 100)"

section \<open>Names of directories and files: \<open>construct_path_name\<close>, \<open>construct_file_name\<close>\<close>

text \<open>\<open>s.decode('ascii', 'replace')\<close>\<close>

definition decode_ascii_replace :: "env \<Rightarrow> string \<Rightarrow> string" where
  "decode_ascii_replace E s = map (\<lambda>c. if (of_char c :: nat) < 128 then c else replacement E) s"

text \<open>
  \<open>while author[-1] in (' ', '.'): author = author[:-1]\<close>.  Indexing the empty text raises
  \<open>IndexError\<close>.
\<close>

function strip_author :: "string \<Rightarrow> error + string" where
  "strip_author author =
     (if author = [] then Inl IndexError
      else if last author = CHR '' '' \<or> last author = CHR ''.'' then strip_author (butlast author)
      else Inr author)"
  by pat_completeness auto
termination
  by (relation "measure length") auto

declare strip_author.simps [simp del]

definition construct_path_name :: "env \<Rightarrow> int \<Rightarrow> string \<Rightarrow> string \<Rightarrow> error + string" where
  "construct_path_name E book_id title author =
     (let author = decode_ascii_replace E (take (PATH_LIMIT E) (ascii_filename E author));
          title = decode_ascii_replace E (take (PATH_LIMIT E) (ascii_filename E title))
      in case strip_author author of
           Inl e \<Rightarrow> Inl e
         | Inr author \<Rightarrow>
             (let author = (if author = []
                            then decode_ascii_replace E (ascii_filename E (translate E ''Unknown''))
                            else author)
              in Inr (author @ ''/'' @ title @ '' ('' @ str_int book_id @ '')'')))"

text \<open>\<open>while name.endswith('.'): name = name[:-1]\<close>\<close>

function strip_dots :: "string \<Rightarrow> string" where
  "strip_dots nm =
     (if nm \<noteq> [] \<and> last nm = CHR ''.'' then strip_dots (butlast nm) else nm)"
  by pat_completeness auto
termination
  by (relation "measure length") auto

declare strip_dots.simps [simp del]

definition construct_file_name :: "env \<Rightarrow> int \<Rightarrow> string \<Rightarrow> string \<Rightarrow> string" where
  "construct_file_name E book_id title author =
     (let author = decode_ascii_replace E (take (PATH_LIMIT E) (ascii_filename E author));
          title = decode_ascii_replace E (take (PATH_LIMIT E) (ascii_filename E title));
          name = title @ '' - '' @ author
      in strip_dots name)"

text \<open>A store opened on a table with one row, used in the examples.\<close>

definition example_prefs :: "bool DBPrefs" where
  "example_prefs = DBPrefs_init bool_codec [(''bools_are_tristate'', ''false'')]"

section \<open>An instance of the platform for the examples\<close>

text \<open>\<open>lower()\<close> on ASCII text.\<close>

definition ascii_lower :: "string \<Rightarrow> string" where
  "ascii_lower s =
     map (\<lambda>c. case map_of (zip ''ABCDEFGHIJKLMNOPQRSTUVWXYZ'' ''abcdefghijklmnopqrstuvwxyz'') c of
                 Some d \<Rightarrow> d | None \<Rightarrow> c) s"

text \<open>
  \<open>glob.glob\<close> for a pattern with one star in its last component, as \<open>format_abspath\<close>
  builds it: the files whose path starts with the text before the star, ends with the
  text after it and has no further slash in between.
\<close>

definition glob_star :: "filesystem \<Rightarrow> string \<Rightarrow> error + string list" where
  "glob_star fs pattern =
     (let pre = takeWhile (\<lambda>c. c \<noteq> CHR ''*'') pattern;
          suf = drop 1 (dropWhile (\<lambda>c. c \<noteq> CHR ''*'') pattern)
      in Inr [p \<leftarrow> map fst (files fs).
                length pre + length suf \<le> length p \<and> prefix pre p \<and> suffix suf p \<and>
                CHR ''/'' \<notin> set (drop (length pre) p)])"

text \<open>
  A POSIX platform on which names are clean ASCII already (the sanitizer, the translation
  and the path normalisations leave them as they are); the digest is a stand-in that
  writes the bytes after a tag.
\<close>

definition posix_env :: env where
  "posix_env =
     \<lparr>iswindows = False, ascii_filename = (\<lambda>s. s), translate = (\<lambda>s. s),
      str_lower = ascii_lower, icu_lower = ascii_lower,
      abspath = (\<lambda>p. p), realpath = (\<lambda>p. p), normcase = (\<lambda>p. p),
      glob = glob_star, SPOOL_SIZE = 4, sha256_hexdigest = (\<lambda>bytes. ''sha256:'' @ bytes),
      replacement = CHR ''?'',
      wam_open = (\<lambda>fs p. Inr ()), wam_copy_path_to = (\<lambda>fs src dest. Inr fs),
      wam_delete_originals = (\<lambda>fs p. Inr fs)\<rparr>"

section \<open>Format files: \<open>format_abspath\<close> and \<open>format_hash\<close>\<close>

text \<open>
  \<open>format_abspath\<close> answers the path of the file of a format, \<open>None\<close> when it finds none.
  When the file is not under its recorded name but \<open>glob\<close> finds a file with the
  extension of the format, the first such file is copied to the recorded name.  An
  exception of \<open>glob\<close> is caught and leaves no candidates.
\<close>

definition format_abspath ::
  "env \<Rightarrow> DB \<Rightarrow> int \<Rightarrow> string \<Rightarrow> string \<Rightarrow> string \<Rightarrow> filesystem
     \<Rightarrow> (error + string option) \<times> filesystem"
where
  "format_abspath E db book_id fmt fname path fs =
     (let path = path_join (library_path db) [path];
          fmt = (if fmt \<noteq> [] then ''.'' @ str_lower E fmt else []);
          fmt_path = path_join path [fname @ fmt]
      in if path_exists fs fmt_path then (Inr (Some fmt_path), fs)
         else
           (let candidates = (case glob E fs (path_join path [''*'' @ fmt]) of
                                Inl e \<Rightarrow> [] | Inr cs \<Rightarrow> cs)
            in if fmt \<noteq> [] \<and> candidates \<noteq> [] \<and> path_exists fs (hd candidates)
               then (case copyfile fs (hd candidates) fmt_path of
                       Inl e \<Rightarrow> (Inl e, fs)
                     | Inr fs' \<Rightarrow> (Inr (Some fmt_path), fs'))
               else (Inr None, fs)))"

text \<open>
  The loop of \<open>format_hash\<close>: \<open>raw = f.read(SPOOL_SIZE); sha.update(raw)\<close>, until a read
  is shorter than \<open>SPOOL_SIZE\<close>.  \<open>rest\<close> is what is left to read of the file and \<open>sha\<close>
  the bytes the hash object was fed, in order; the digest of a hash object is the digest
  of these bytes.  With a chunk size of zero the loop does not end, which the value \<open>None\<close>
  stands for.
\<close>

partial_function (option) hash_chunks :: "nat \<Rightarrow> string \<Rightarrow> string \<Rightarrow> string option" where
  "hash_chunks spool rest sha =
     (let raw = take spool rest;
          sha' = sha @ raw
      in if length raw < spool then Some sha' else hash_chunks spool (drop spool rest) sha')"

definition format_hash ::
  "env \<Rightarrow> DB \<Rightarrow> int \<Rightarrow> string \<Rightarrow> string \<Rightarrow> string \<Rightarrow> filesystem
     \<Rightarrow> ((error + string) \<times> filesystem) option"
where
  "format_hash E db book_id fmt fname path fs =
     (case format_abspath E db book_id fmt fname path fs of
        (Inl e, fs') \<Rightarrow> Some (Inl e, fs')
      | (Inr None, fs') \<Rightarrow> Some (Inl NoSuchFormat, fs')
      | (Inr (Some p), fs') \<Rightarrow>
          (case lopen_rb fs' p of
             Inl e \<Rightarrow> Some (Inl e, fs')
           | Inr content \<Rightarrow>
               (case hash_chunks (SPOOL_SIZE E) content [] of
                  None \<Rightarrow> None
                | Some fed \<Rightarrow> Some (Inr (sha256_hexdigest E fed), fs'))))"

section \<open>Deleting trees: \<open>normpath\<close> and \<open>rmtree\<close>\<close>

definition normpath :: "env \<Rightarrow> DB \<Rightarrow> string \<Rightarrow> string" where
  "normpath E db path =
     (let path = abspath E (realpath E path)
      in if \<not> is_case_sensitive db then str_lower E (normcase E path) else path)"

text \<open>\<open>a.startswith(b)\<close> is \<open>prefix b a\<close>.\<close>

definition rmtree :: "env \<Rightarrow> DB \<Rightarrow> string \<Rightarrow> bool \<Rightarrow> filesystem \<Rightarrow> error + filesystem" where
  "rmtree E db path permanent fs =
     (if \<not> prefix (normpath E db path) (normpath E db (library_path db))
      then delete_tree fs path permanent
      else Inr fs)"


text \<open>A library with one record, used in the examples.\<close>

definition example_db :: DB where
  "example_db = \<lparr>library_path = ''/lib'', is_case_sensitive = True\<rparr>"

definition example_fs :: filesystem where
  "example_fs =
     \<lparr>files = [(''/lib/metadata.db'', ''SQLite''),
               (''/lib/Bar/Foo (7)/cover.jpg'', ''JPEG''),
               (''/lib/Bar/Foo (7)/Foo - Bar.epub'', ''EPUB-bytes''),
               (''/lib/Bar/Foo (7)/Foo - Bar.pdf'', ''PDF-bytes'')],
      dirs = [''/'', ''/lib'', ''/lib/Bar'', ''/lib/Bar/Foo (7)''],
      unreadable = [], unwritable = [], hardlinks = True\<rparr>"

section \<open>Keeping the files with the metadata: \<open>update_path\<close>\<close>

text \<open>
  Modelled from the spec: \<open>path_field\<close> and \<open>formats_field\<close>, the objects of
  \<open>calibre.db.fields\<close> and \<open>calibre.db.tables\<close> through which \<open>update_path\<close> reads and
  writes the persisted metadata of the stored files, are not part of these sources.  The
  specification describes a stored file as record id, format tag, file-name stem and
  directory path: the record holds the directory path of each record, the formats of
  each record and the stem of each format.  \<open>for_book\<close> answers its default (the empty
  text, no formats) for a record it does not know, \<open>format_fname\<close> the empty text for a
  format without a stem.
\<close>

record metadata =
  book_path :: "int \<rightharpoonup> string"
  book_formats :: "int \<rightharpoonup> string list"
  fname_map :: "int \<times> string \<rightharpoonup> string"

definition path_for_book :: "metadata \<Rightarrow> int \<Rightarrow> string" where
  "path_for_book m book_id = (case book_path m book_id of None \<Rightarrow> [] | Some p \<Rightarrow> p)"

definition formats_for_book :: "metadata \<Rightarrow> int \<Rightarrow> string list" where
  "formats_for_book m book_id = (case book_formats m book_id of None \<Rightarrow> [] | Some fmts \<Rightarrow> fmts)"

definition format_fname :: "metadata \<Rightarrow> int \<Rightarrow> string \<Rightarrow> string" where
  "format_fname m book_id fmt = (case fname_map m (book_id, fmt) of None \<Rightarrow> [] | Some n \<Rightarrow> n)"

definition set_fname :: "metadata \<Rightarrow> int \<Rightarrow> string \<Rightarrow> string \<Rightarrow> metadata" where
  "set_fname m book_id fmt fname = m\<lparr>fname_map := (fname_map m)((book_id, fmt) \<mapsto> fname)\<rparr>"

definition set_path :: "metadata \<Rightarrow> int \<Rightarrow> string \<Rightarrow> metadata" where
  "set_path m book_id path = m\<lparr>book_path := (book_path m)(book_id \<mapsto> path)\<rparr>"

text \<open>
  \<open>copy_cover_to\<close> and \<open>copy_format_to\<close> for a destination that is a path, as in every call
  \<open>update_path\<close> makes (the branch for a destination with a \<open>write\<close> method writes to no
  file of the library).  The argument \<open>wam\<close> tells whether a \<open>WindowsAtomicFolderMove\<close> is
  passed.  In \<open>copy_cover_to\<close> the file is opened a second time whatever the first
  \<open>lopen\<close> did, so the second \<open>lopen\<close> decides.  An exception leaves the file system as
  the calls before it made it.
\<close>

definition copy_cover_to ::
  "env \<Rightarrow> DB \<Rightarrow> string \<Rightarrow> string \<Rightarrow> bool \<Rightarrow> bool \<Rightarrow> filesystem \<Rightarrow> (error + bool) \<times> filesystem"
where
  "copy_cover_to E db path dest wam use_hardlink fs =
     (let path = abspath E (path_join (library_path db) [path, ''cover.jpg''])
      in if wam then
           (if access_R fs path \<and> dest \<noteq> [] \<and> \<not> samefile fs dest path
            then (case wam_copy_path_to E fs path dest of
                    Inl e \<Rightarrow> (Inl e, fs)
                  | Inr fs' \<Rightarrow> (Inr True, fs'))
            else (Inr False, fs))
         else if access_R fs path then
           (case lopen_rb fs path of
              Inl e \<Rightarrow> (Inl e, fs)
            | Inr f \<Rightarrow>
                if dest \<noteq> [] \<and> \<not> samefile fs dest path then
                  (let copy = (case write_file fs dest f of
                                 Inl e \<Rightarrow> (Inl e, fs)
                               | Inr fs' \<Rightarrow> (Inr True, fs'))
                   in if use_hardlink
                      then (case hardlink_file fs path dest of
                              Inr fs' \<Rightarrow> (Inr True, fs')
                            | Inl e \<Rightarrow> copy)
                      else copy)
                else (Inr False, fs))
         else (Inr False, fs))"

definition copy_format_to ::
  "env \<Rightarrow> DB \<Rightarrow> int \<Rightarrow> string \<Rightarrow> string \<Rightarrow> string \<Rightarrow> string \<Rightarrow> bool \<Rightarrow> bool \<Rightarrow> filesystem
     \<Rightarrow> (error + bool) \<times> filesystem"
where
  "copy_format_to E db book_id fmt fname path dest wam use_hardlink fs =
     (case format_abspath E db book_id fmt fname path fs of
        (Inl e, fs1) \<Rightarrow> (Inl e, fs1)
      | (Inr None, fs1) \<Rightarrow> (Inr False, fs1)
      | (Inr (Some path), fs1) \<Rightarrow>
          if wam then
            (if dest \<noteq> [] then
               (if samefile fs1 dest path then
                  (if path \<noteq> dest
                   then (case os_rename fs1 path dest of
                           Inl e \<Rightarrow> (Inr True, fs1)
                         | Inr fs2 \<Rightarrow> (Inr True, fs2))
                   else (Inr True, fs1))
                else (case wam_copy_path_to E fs1 path dest of
                        Inl e \<Rightarrow> (Inl e, fs1)
                      | Inr fs2 \<Rightarrow> (Inr True, fs2)))
             else (Inr True, fs1))
          else if dest \<noteq> [] then
            (if samefile fs1 dest path then
               (if \<not> is_case_sensitive db \<and> path \<noteq> dest
                then (case os_rename fs1 path dest of
                        Inl e \<Rightarrow> (Inr True, fs1)
                      | Inr fs2 \<Rightarrow> (Inr True, fs2))
                else (Inr True, fs1))
             else
               (let copy = (case lopen_rb fs1 path of
                              Inl e \<Rightarrow> (Inl e, fs1)
                            | Inr f \<Rightarrow>
                                (case write_file fs1 dest f of
                                   Inl e \<Rightarrow> (Inl e, fs1)
                                 | Inr fs2 \<Rightarrow> (Inr True, fs2)))
                in if use_hardlink
                   then (case hardlink_file fs1 path dest of
                           Inr fs2 \<Rightarrow> (Inr True, fs2)
                         | Inl e \<Rightarrow> copy)
                   else copy))
          else (Inr True, fs1))"

text \<open>
  The loop of \<open>update_path\<close> that copies the format files to the target directory under
  the new stem; the stems in use are read from the metadata.
\<close>

fun copy_formats ::
  "env \<Rightarrow> DB \<Rightarrow> metadata \<Rightarrow> int \<Rightarrow> string \<Rightarrow> string \<Rightarrow> string \<Rightarrow> bool \<Rightarrow> string list \<Rightarrow> filesystem
     \<Rightarrow> (error + unit) \<times> filesystem"
where
  "copy_formats E db m book_id current_path tpath fname wam [] fs = (Inr (), fs)"
| "copy_formats E db m book_id current_path tpath fname wam (fmt # fmts) fs =
     (let dest = path_join tpath [fname @ ''.'' @ str_lower E fmt]
      in case copy_format_to E db book_id fmt (format_fname m book_id fmt) current_path dest wam True fs of
           (Inl e, fs') \<Rightarrow> (Inl e, fs')
         | (Inr b, fs') \<Rightarrow> copy_formats E db m book_id current_path tpath fname wam fmts fs')"

text \<open>The block \<open>if source_ok:  # Migrate existing files\<close>: the cover, then the formats.\<close>

definition migrate_files ::
  "env \<Rightarrow> DB \<Rightarrow> metadata \<Rightarrow> int \<Rightarrow> string \<Rightarrow> string \<Rightarrow> string \<Rightarrow> bool \<Rightarrow> string list \<Rightarrow> filesystem
     \<Rightarrow> (error + unit) \<times> filesystem"
where
  "migrate_files E db m book_id current_path tpath fname wam formats fs =
     (case copy_cover_to E db current_path (path_join tpath [''cover.jpg'']) wam True fs of
        (Inl e, fs1) \<Rightarrow> (Inl e, fs1)
      | (Inr b, fs1) \<Rightarrow> copy_formats E db m book_id current_path tpath fname wam formats fs1)"

text \<open>The block \<open># Delete not needed directories\<close>.\<close>

definition delete_source ::
  "env \<Rightarrow> DB \<Rightarrow> string \<Rightarrow> string \<Rightarrow> bool \<Rightarrow> filesystem \<Rightarrow> (error + unit) \<times> filesystem"
where
  "delete_source E db spath tpath wam fs =
     (if path_exists fs spath \<and> \<not> samefile fs spath tpath then
        (case (if wam then wam_delete_originals E fs spath else Inr fs) of
           Inl e \<Rightarrow> (Inl e, fs)
         | Inr fs1 \<Rightarrow>
             (case rmtree E db spath True fs1 of
                Inl e \<Rightarrow> (Inl e, fs1)
              | Inr fs2 \<Rightarrow>
                  (let parent = dirname spath
                   in case listdir fs2 parent of
                        Inl e \<Rightarrow> (Inl e, fs2)
                      | Inr names \<Rightarrow>
                          if length names = 0
                          then (case rmtree E db parent True fs2 of
                                  Inl e \<Rightarrow> (Inl e, fs2)
                                | Inr fs3 \<Rightarrow> (Inr (), fs3))
                          else (Inr (), fs2))))
      else (Inr (), fs))"

text \<open>
  The last loop of \<open>update_path\<close>: a segment of the path that changed in case only is
  renamed in place; the first renaming that fails ends the loop silently.
\<close>

fun rename_segments :: "env \<Rightarrow> filesystem \<Rightarrow> string \<Rightarrow> (string \<times> string) list \<Rightarrow> filesystem" where
  "rename_segments E fs curpath [] = fs"
| "rename_segments E fs curpath ((oldseg, newseg) # rest) =
     (if str_lower E oldseg = str_lower E newseg \<and> oldseg \<noteq> newseg
      then (case os_rename fs (path_join curpath [oldseg]) (path_join curpath [newseg]) of
              Inl e \<Rightarrow> fs
            | Inr fs' \<Rightarrow> rename_segments E fs' (path_join curpath [newseg]) rest)
      else rename_segments E fs (path_join curpath [newseg]) rest)"

text \<open>
  \<open>update_path\<close>.  The result is the exception, if one is raised, with the metadata and
  the file system as the call leaves them.  Closing the handles of the
  \<open>WindowsAtomicFolderMove\<close> in the \<open>finally\<close> clause changes neither.
\<close>

definition update_path ::
  "env \<Rightarrow> DB \<Rightarrow> int \<Rightarrow> string \<Rightarrow> string \<Rightarrow> metadata \<Rightarrow> filesystem
     \<Rightarrow> (error + unit) \<times> metadata \<times> filesystem"
where
  "update_path E db book_id title author m fs =
     (case construct_path_name E book_id title author of
        Inl e \<Rightarrow> (Inl e, m, fs)
      | Inr path \<Rightarrow>
          (let current_path = path_for_book m book_id;
               formats = formats_for_book m book_id;
               fname = construct_file_name E book_id title author;
               changed = list_ex (\<lambda>fmt. format_fname m book_id fmt \<noteq> []
                                        \<and> format_fname m book_id fmt \<noteq> fname) formats
           in if path = current_path \<and> \<not> changed then (Inr (), m, fs)
              else
                (let spath = path_join (library_path db) (split_slash current_path);
                     tpath = path_join (library_path db) (split_slash path);
                     source_ok = (current_path \<noteq> [] \<and> path_exists fs spath);
                     wam = (iswindows E \<and> source_ok)
                 in case (if wam then wam_open E fs spath else Inr ()) of
                      Inl e \<Rightarrow> (Inl e, m, fs)
                    | Inr u \<Rightarrow>
                        (case (if \<not> path_exists fs tpath then makedirs fs tpath else Inr fs) of
                           Inl e \<Rightarrow> (Inl e, m, fs)
                         | Inr fs1 \<Rightarrow>
                             (case (if source_ok
                                    then migrate_files E db m book_id current_path tpath fname wam formats fs1
                                    else (Inr (), fs1)) of
                                (Inl e, fs2) \<Rightarrow> (Inl e, m, fs2)
                              | (Inr u, fs2) \<Rightarrow>
                                  (let m1 = fold (\<lambda>fmt m. set_fname m book_id fmt fname) formats m;
                                       m2 = set_path m1 book_id path
                                   in case (if source_ok then delete_source E db spath tpath wam fs2
                                            else (Inr (), fs2)) of
                                        (Inl e, fs3) \<Rightarrow> (Inl e, m2, fs3)
                                      | (Inr u, fs3) \<Rightarrow>
                                          (let c1 = split_slash current_path;
                                               c2 = split_slash path
                                           in if \<not> is_case_sensitive db \<and> length c1 = length c2
                                              then (Inr (), m2,
                                                    rename_segments E fs3 (library_path db) (zip c1 c2))
                                              else (Inr (), m2, fs3))))))))"

text \<open>The metadata of the record of the example library.\<close>

definition example_meta :: metadata where
  "example_meta =
     \<lparr>book_path = [7 \<mapsto> ''Bar/Foo (7)''],
      book_formats = [7 \<mapsto> [''EPUB'', ''PDF'']],
      fname_map = [(7, ''EPUB'') \<mapsto> ''Foo - Bar'', (7, ''PDF'') \<mapsto> ''Foo - Bar'']\<rparr>"

text \<open>
  The source and the target directory of \<open>update_path\<close> (\<open>spath\<close> and \<open>tpath\<close>), and the
  paths it copies the cover and the format files to.
\<close>

definition source_dir :: "DB \<Rightarrow> metadata \<Rightarrow> int \<Rightarrow> string" where
  "source_dir db m book_id = path_join (library_path db) (split_slash (path_for_book m book_id))"

definition target_dir :: "DB \<Rightarrow> string \<Rightarrow> string" where
  "target_dir db path = path_join (library_path db) (split_slash path)"






section \<open>User categories that differ in case only: the end of \<open>initialize_prefs\<close>\<close>

text \<open>
  A Python dictionary whose iteration order matters is the list of its items in the order
  of iteration, with distinct keys.  \<open>d[k] = v\<close> is \<open>AList.update k v d\<close> and \<open>del d[k]\<close> is
  \<open>AList.delete k d\<close>; both raise \<open>KeyError\<close> in Python where the model says so.
\<close>

type_synonym 'a pydict = "(string \<times> 'a) list"

text \<open>
  The first loop: \<open>catmap\<close> maps each lower-cased name to the names that lower-case to it,
  in the order \<open>user_cats\<close> yields them.
\<close>

fun build_catmap :: "env \<Rightarrow> string list \<Rightarrow> string list pydict \<Rightarrow> string list pydict" where
  "build_catmap E [] catmap = catmap"
| "build_catmap E (uc # ucs) catmap =
     (let ucl = icu_lower E uc;
          catmap1 = (if ucl \<notin> fst ` set catmap then AList.update ucl [] catmap else catmap);
          catmap2 = AList.update ucl
                      ((case map_of catmap1 ucl of Some names \<Rightarrow> names | None \<Rightarrow> []) @ [uc]) catmap1
      in build_catmap E ucs catmap2)"

text \<open>
  \<open>while icu_lower((cat + unicode(suffix))) in catmap: suffix += 1\<close>.  The loop ends when a
  suffix is found; \<open>None\<close> stands for a loop that does not end.
\<close>

partial_function (option) find_suffix :: "env \<Rightarrow> string list pydict \<Rightarrow> string \<Rightarrow> nat \<Rightarrow> nat option" where
  "find_suffix E catmap cat sfx =
     (if icu_lower E (cat @ str_nat sfx) \<in> fst ` set catmap
      then find_suffix E catmap cat (sfx + 1)
      else Some sfx)"

declare find_suffix.simps [code]

text \<open>
  The second loop, \<open>for uc in catmap\<close>, over the keys of \<open>catmap\<close> in the order given.  It
  carries \<open>user_cats\<close> and \<open>cats_changed\<close>, and answers them with the exception that ended
  it, if one did.
\<close>

fun rename_overlaps ::
  "env \<Rightarrow> string list pydict \<Rightarrow> string list \<Rightarrow> 'a pydict \<times> bool
     \<Rightarrow> (error option \<times> 'a pydict \<times> bool) option"
where
  "rename_overlaps E catmap [] (user_cats, cats_changed) = Some (None, user_cats, cats_changed)"
| "rename_overlaps E catmap (uc # ucs) (user_cats, cats_changed) =
     (case map_of catmap uc of
        None \<Rightarrow> Some (Some KeyError, user_cats, cats_changed)
      | Some names \<Rightarrow>
          if length names > 1 then
            (let cat = hd names
             in case find_suffix E catmap cat 1 of
                  None \<Rightarrow> None
                | Some sfx \<Rightarrow>
                    (case map_of user_cats cat of
                       None \<Rightarrow> Some (Some KeyError, user_cats, cats_changed)
                     | Some v \<Rightarrow>
                         rename_overlaps E catmap ucs
                           (AList.delete cat (AList.update (cat @ str_nat sfx) v user_cats), True)))
          else rename_overlaps E catmap ucs (user_cats, cats_changed))"

text \<open>
  Both loops.  A Python 2 dictionary is iterated in the order of its hash table: \<open>order\<close>
  maps the keys of \<open>catmap\<close>, listed as they were inserted, to the order of iteration.
\<close>

definition rename_user_categories ::
  "env \<Rightarrow> (string list \<Rightarrow> string list) \<Rightarrow> 'a pydict \<Rightarrow> (error option \<times> 'a pydict \<times> bool) option"
where
  "rename_user_categories E order user_cats =
     (let catmap = build_catmap E (map fst user_cats) []
      in rename_overlaps E catmap (order (map fst catmap)) (user_cats, False))"

text \<open>
  The end of \<open>initialize_prefs\<close>, from \<open>user_cats = self.prefs.get('user_categories', [])\<close>
  on, in a store of dictionaries.  \<open>user_cats\<close> is the very object the store holds, so the
  renamings show in the items of the store at once; \<open>set\<close> writes the table when a name
  was renamed.
\<close>

definition repair_user_categories ::
  "'a pydict codec \<Rightarrow> bool \<Rightarrow> env \<Rightarrow> (string list \<Rightarrow> string list) \<Rightarrow> 'a pydict DBPrefs
     \<Rightarrow> ('a pydict DBPrefs \<times> error option) option"
where
  "repair_user_categories c refused E order p =
     (let user_cats = (case DBPrefs_get p ''user_categories'' of None \<Rightarrow> [] | Some d \<Rightarrow> d)
      in case rename_user_categories E order user_cats of
           None \<Rightarrow> None
         | Some (exc, user_cats', cats_changed) \<Rightarrow>
             (let p1 = (if DBPrefs_get p ''user_categories'' = None then p
                        else p\<lparr>items := (items p)(''user_categories'' \<mapsto> user_cats')\<rparr>)
              in case exc of
                   Some e \<Rightarrow> Some (p1, Some e)
                 | None \<Rightarrow>
                     if cats_changed
                     then Some (DBPrefs_set c refused ''user_categories'' user_cats' p1)
                     else Some (p1, None)))"

text \<open>
  The names of \<open>user_cats\<close> that lower-case to \<open>l\<close>, in the order of iteration; the first
  name of a group of two or more such names; and the smallest positive suffix \<open>n\<close> for
  which the lower-cased \<open>c + unicode(n)\<close> is not among the lower-cased names \<open>lowered\<close>.
\<close>

definition overlap :: "env \<Rightarrow> 'a pydict \<Rightarrow> string \<Rightarrow> string list" where
  "overlap E user_cats l = [x \<leftarrow> map fst user_cats. icu_lower E x = l]"

definition first_of_overlap :: "env \<Rightarrow> 'a pydict \<Rightarrow> string \<Rightarrow> bool" where
  "first_of_overlap E user_cats c \<longleftrightarrow>
     c \<in> fst ` set user_cats \<and> 1 < length (overlap E user_cats (icu_lower E c)) \<and>
     hd (overlap E user_cats (icu_lower E c)) = c"

definition least_free_suffix :: "env \<Rightarrow> string set \<Rightarrow> string \<Rightarrow> nat \<Rightarrow> bool" where
  "least_free_suffix E lowered c n \<longleftrightarrow>
     1 \<le> n \<and> icu_lower E (c @ str_nat n) \<notin> lowered \<and>
     (\<forall>k. 1 \<le> k \<and> k < n \<longrightarrow> icu_lower E (c @ str_nat k) \<in> lowered)"

text \<open>
  What \<open>user_cats[c + unicode(n)] = user_cats[c]; del user_cats[c]\<close> makes of a dictionary,
  as a map.
\<close>

definition rename_map :: "string \<Rightarrow> nat \<Rightarrow> (string \<rightharpoonup> 'a) \<Rightarrow> (string \<rightharpoonup> 'a)" where
  "rename_map c n d = (d(c @ str_nat n := d c))(c := None)"

text \<open>
  For the examples: the order of insertion as order of iteration; a stand-in codec for
  dictionaries that writes the items one after the other and reads nothing back; and a
  store whose user categories hold \<open>News\<close> and \<open>news\<close>.
\<close>

definition keep_order :: "string list \<Rightarrow> string list" where
  "keep_order ks = ks"

definition example_dict_codec :: "string list pydict codec" where
  "example_dict_codec =
     \<lparr>to_raw = (\<lambda>d. Inr (concat (map (\<lambda>(k, v). k @ '':'' @ concat v @ '';'') d))),
      raw_to_object = (\<lambda>raw. Inl TypeError)\<rparr>"

definition example_cats :: "string list pydict" where
  "example_cats = [(''News'', [''a'']), (''news'', [''b'']), (''Art'', [''c''])]"

definition example_cats_prefs :: "string list pydict DBPrefs" where
  "example_cats_prefs =
     \<lparr>preferences = [(''user_categories'', ''News:a;news:b;Art:c;'')],
      items = [''user_categories'' \<mapsto> example_cats],
      defaults = Map.empty, disable_setting = False\<rparr>"

section \<open>Properties\<close>

subsection \<open>Decimal numerals\<close>


lemma str_nat_nonempty: "str_nat n \<noteq> []"
  by (subst str_nat.simps) simp

lemma digit_char_inj: "a < 10 \<Longrightarrow> b < 10 \<Longrightarrow> digit_char a = digit_char b \<Longrightarrow> a = b"
  unfolding digit_char_def
  by (subst (asm) nth_eq_iff_index_eq) simp_all

lemma digit_in: "d < 10 \<Longrightarrow> digit_char d \<in> set ''0123456789''"
  unfolding digit_char_def by (rule nth_mem) simp

lemma str_nat_last: "last (str_nat n) = digit_char (n mod 10)"
  by (subst str_nat.simps) simp

lemma str_nat_butlast: "butlast (str_nat n) = (if n < 10 then [] else str_nat (n div 10))"
  by (subst str_nat.simps) simp

lemma str_nat_inj: "str_nat m = str_nat n \<Longrightarrow> m = n"
proof (induction m arbitrary: n rule: str_nat.induct)
  case (1 m)
  from "1.prems" have l: "digit_char (m mod 10) = digit_char (n mod 10)"
    by (metis str_nat_last)
  then have lm: "m mod 10 = n mod 10"
    by (intro digit_char_inj) auto
  from "1.prems" have b: "butlast (str_nat m) = butlast (str_nat n)" by simp
  show ?case
  proof (cases "m < 10")
    case True
    with b have "n < 10"
      using str_nat_nonempty[of "n div 10"] by (auto simp: str_nat_butlast split: if_splits)
    with True lm show ?thesis by simp
  next
    case False
    with b have n: "\<not> n < 10" and e: "str_nat (m div 10) = str_nat (n div 10)"
      using str_nat_nonempty[of "m div 10"] by (auto simp: str_nat_butlast split: if_splits)
    from "1.IH"[OF False e] have "m div 10 = n div 10" .
    with lm show ?thesis by (metis div_mult_mod_eq)
  qed
qed

lemma str_nat_digits: "set (str_nat n) \<subseteq> set ''0123456789''"
proof (induction n rule: str_nat.induct)
  case (1 n)
  show ?case
  proof (cases "n < 10")
    case True
    then show ?thesis using digit_in[of n] by (subst str_nat.simps) simp
  next
    case False
    have "n mod 10 < 10" by simp
    from digit_in[OF this] "1.IH"[OF False] False show ?thesis
      by (subst str_nat.simps) simp
  qed
qed

lemma str_int_inj: "str_int i = str_int j \<Longrightarrow> i = j"
proof -
  assume a: "str_int i = str_int j"
  have nd: "\<And>n. hd (str_nat n) \<noteq> CHR ''-''"
  proof -
    fix n
    have "hd (str_nat n) \<in> set (str_nat n)" using str_nat_nonempty by simp
    then have "hd (str_nat n) \<in> set ''0123456789''" using str_nat_digits by blast
    then show "hd (str_nat n) \<noteq> CHR ''-''" by auto
  qed
  show ?thesis
  proof (cases "i < 0"; cases "j < 0")
    assume "i < 0" "j < 0"
    with a have "nat (-i) = nat (-j)" by (auto simp: str_int_def dest: str_nat_inj)
    with \<open>i < 0\<close> \<open>j < 0\<close> show ?thesis by simp
  next
    assume "i < 0" "\<not> j < 0"
    with a have "CHR ''-'' # str_nat (nat (-i)) = str_nat (nat j)" by (simp add: str_int_def)
    then have "hd (str_nat (nat j)) = CHR ''-''" by (metis list.sel(1))
    with nd show ?thesis by blast
  next
    assume "\<not> i < 0" "j < 0"
    with a have "CHR ''-'' # str_nat (nat (-j)) = str_nat (nat i)" by (simp add: str_int_def)
    then have "hd (str_nat (nat i)) = CHR ''-''" by (metis list.sel(1))
    with nd show ?thesis by blast
  next
    assume "\<not> i < 0" "\<not> j < 0"
    with a have "nat i = nat j" by (auto simp: str_int_def dest: str_nat_inj)
    with \<open>\<not> i < 0\<close> \<open>\<not> j < 0\<close> show ?thesis by simp
  qed
qed

lemma str_int_hd: "str_int i \<noteq> [] \<and> hd (str_int i) \<in> set ''-0123456789''"
proof -
  have "hd (str_nat n) \<in> set ''0123456789''" for n
    using str_nat_nonempty[of n] str_nat_digits[of n] hd_in_set by blast
  then show ?thesis using str_nat_nonempty by (auto simp: str_int_def)
qed


subsection \<open>Field slots\<close>

lemma assign_custom_base:
  "snd (assign_custom cols (fm, b)) = b + sum_list (map (slot_width \<circ> snd) cols)"
  by (induction cols arbitrary: fm b) (auto simp: Let_def slot_width_def)

lemma assign_custom_other:
  "k \<notin> custom_keys cols \<Longrightarrow> fst (assign_custom cols (fm, b)) k = fm k"
  by (induction cols arbitrary: fm b) (auto simp: Let_def custom_keys_def split: if_splits)

lemma index_name_neq: "i \<noteq> j \<Longrightarrow> str_int i @ ''_index'' \<noteq> str_int j @ ''_index''"
  using str_int_inj by auto

lemma assign_custom_num:
  assumes "distinct (map (\<lambda>c. num (snd c)) cols)" "i < length cols"
  shows "fst (assign_custom cols (fm, b)) (Num (num (snd (cols ! i)))) = Some (b + slots_before cols i + 1)"
  using assms
proof (induction cols arbitrary: fm b i)
  case Nil
  then show ?case by simp
next
  case (Cons c cols)
  obtain l d where c: "c = (l, d)" by (cases c)
  show ?case
  proof (cases i)
    case 0
    have "Num (num d) \<notin> custom_keys cols"
      using Cons.prems(1) c by (force simp: custom_keys_def)
    then show ?thesis using 0 c
      by (simp add: Let_def assign_custom_other slots_before_def)
  next
    case (Suc j)
    with Cons.prems have j: "j < length cols" and d: "distinct (map (\<lambda>c. num (snd c)) cols)"
      by simp_all
    show ?thesis using Suc c Cons.IH[OF d j]
      by (simp add: Let_def slots_before_def slot_width_def)
  qed
qed

lemma assign_custom_index:
  assumes "distinct (map (\<lambda>c. num (snd c)) cols)" "i < length cols" "data_type (snd (cols ! i)) = ''series''"
  shows "fst (assign_custom cols (fm, b)) (Name (str_int (num (snd (cols ! i))) @ ''_index''))
           = Some (b + slots_before cols i + 2)"
  using assms
proof (induction cols arbitrary: fm b i)
  case Nil
  then show ?case by simp
next
  case (Cons c cols)
  obtain l d where c: "c = (l, d)" by (cases c)
  show ?case
  proof (cases i)
    case 0
    have "Name (str_int (num d) @ ''_index'') \<notin> custom_keys cols"
      using Cons.prems(1) c str_int_inj by (force simp: custom_keys_def)
    then show ?thesis using 0 c Cons.prems(3)
      by (simp add: Let_def assign_custom_other slots_before_def)
  next
    case (Suc j)
    with Cons.prems have j: "j < length cols" and d: "distinct (map (\<lambda>c. num (snd c)) cols)"
      and s: "data_type (snd (cols ! j)) = ''series''" by simp_all
    show ?thesis using Suc c Cons.IH[OF d j s]
      by (simp add: Let_def slots_before_def slot_width_def)
  qed
qed

lemma max_slot_builtin: "max_slot builtin_FIELD_MAP = 21"
  by (simp add: max_slot_def builtin_FIELD_MAP_def)

lemma builtin_not_custom: "(k, v) \<in> set builtin_FIELD_MAP \<Longrightarrow> k \<notin> custom_keys cols"
proof
  assume b: "(k, v) \<in> set builtin_FIELD_MAP" and "k \<in> custom_keys cols"
  then obtain n where "k = Num n \<or> k = Name (str_int n @ ''_index'')"
    by (auto simp: custom_keys_def)
  moreover have "\<exists>s. k = Name s \<and> hd s \<notin> set ''-0123456789'' \<and> s \<noteq> []"
    using b by (auto simp: builtin_FIELD_MAP_def)
  ultimately show False using str_int_hd[of n] by (cases "str_int n") auto
qed



lemma initialize_tables_builtin:
  assumes "(k, v) \<in> set builtin_FIELD_MAP"
  shows "initialize_tables cols k = Some v"
proof -
  obtain fm b where a: "assign_custom cols (map_of builtin_FIELD_MAP, max_slot builtin_FIELD_MAP) = (fm, b)"
    by (cases "assign_custom cols (map_of builtin_FIELD_MAP, max_slot builtin_FIELD_MAP)")
  have "fm k = map_of builtin_FIELD_MAP k"
    using assign_custom_other[OF builtin_not_custom[OF assms], of cols "map_of builtin_FIELD_MAP" "max_slot builtin_FIELD_MAP"] a
    by simp
  moreover have "distinct (map fst builtin_FIELD_MAP)"
    by (simp add: builtin_FIELD_MAP_def)
  ultimately have "fm k = Some v" using assms by simp
  moreover have "k \<noteq> Name ''ondevice''" "k \<noteq> Name ''marked''" "k \<noteq> Name ''series_sort''"
    using assms by (auto simp: builtin_FIELD_MAP_def)
  ultimately show ?thesis by (simp add: initialize_tables_def a)
qed

lemma builtin_le_max_slot: "(k, v) \<in> set builtin_FIELD_MAP \<Longrightarrow> v \<le> max_slot builtin_FIELD_MAP"
  by (auto simp: max_slot_def builtin_FIELD_MAP_def)

text \<open>
  C1, as amended.  Whatever the custom columns are, every built-in field of the
  \<open>FIELD_MAP\<close> literal keeps its constant slot (so adding a column changes none of them).
  The custom columns take consecutive slots from the one after the highest built-in slot
  on, in the order in which \<open>custom_column_label_map.iteritems()\<close> yields them: the
  column at position \<open>i\<close> gets the slot \<open>max_slot + 1\<close> plus the widths of the columns before
  it, a series column being two slots wide with its index (\<open>str(num)+'_index'\<close>) on the
  slot right after its value.  Every custom slot lies above all built-in slots.  The slots
  are a function of the iterated definitions, so two runs over the same definitions agree.
  The numbers of the columns are the keys of the table \<open>custom_columns\<close>, hence distinct.
\<close>

theorem initialize_tables_slots:
  assumes "distinct (map (\<lambda>c. num (snd c)) cols)"
  shows "(\<forall>(k, v) \<in> set builtin_FIELD_MAP. \<forall>cols'. initialize_tables cols' k = Some v) \<and>
         (\<forall>i < length cols.
            initialize_tables cols (Num (num (snd (cols ! i))))
              = Some (max_slot builtin_FIELD_MAP + 1 + slots_before cols i) \<and>
            (data_type (snd (cols ! i)) = ''series'' \<longrightarrow>
               initialize_tables cols (Name (str_int (num (snd (cols ! i))) @ ''_index''))
                 = Some (max_slot builtin_FIELD_MAP + 2 + slots_before cols i)) \<and>
            (\<forall>(k, v) \<in> set builtin_FIELD_MAP.
               v < max_slot builtin_FIELD_MAP + 1 + slots_before cols i))"
proof (intro conjI allI impI ballI)
  fix kv assume kv: "kv \<in> set builtin_FIELD_MAP"
  obtain k v where e: "kv = (k, v)" by (cases kv)
  have "initialize_tables cols' k = Some v" for cols'
    using kv unfolding e by (rule initialize_tables_builtin)
  then show "case kv of (k, v) \<Rightarrow> \<forall>cols'. initialize_tables cols' k = Some v"
    by (simp add: e)
next
  fix i assume i: "i < length cols"
  obtain fm b where a: "assign_custom cols (map_of builtin_FIELD_MAP, max_slot builtin_FIELD_MAP) = (fm, b)"
    by (cases "assign_custom cols (map_of builtin_FIELD_MAP, max_slot builtin_FIELD_MAP)")
  have "fm (Num (num (snd (cols ! i)))) = Some (max_slot builtin_FIELD_MAP + slots_before cols i + 1)"
    using assign_custom_num[OF assms i, of "map_of builtin_FIELD_MAP" "max_slot builtin_FIELD_MAP"] a by simp
  then show "initialize_tables cols (Num (num (snd (cols ! i))))
              = Some (max_slot builtin_FIELD_MAP + 1 + slots_before cols i)"
    by (simp add: initialize_tables_def a)
next
  fix i assume i: "i < length cols" and s: "data_type (snd (cols ! i)) = ''series''"
  obtain fm b where a: "assign_custom cols (map_of builtin_FIELD_MAP, max_slot builtin_FIELD_MAP) = (fm, b)"
    by (cases "assign_custom cols (map_of builtin_FIELD_MAP, max_slot builtin_FIELD_MAP)")
  have "fm (Name (str_int (num (snd (cols ! i))) @ ''_index'')) = Some (max_slot builtin_FIELD_MAP + slots_before cols i + 2)"
    using assign_custom_index[OF assms i s, of "map_of builtin_FIELD_MAP" "max_slot builtin_FIELD_MAP"] a by simp
  then show "initialize_tables cols (Name (str_int (num (snd (cols ! i))) @ ''_index''))
                 = Some (max_slot builtin_FIELD_MAP + 2 + slots_before cols i)"
    by (simp add: initialize_tables_def a)
next
  fix i kv assume kv: "kv \<in> set builtin_FIELD_MAP"
  obtain k v where e: "kv = (k, v)" by (cases kv)
  have "v \<le> max_slot builtin_FIELD_MAP" using kv unfolding e by (rule builtin_le_max_slot)
  then show "case kv of (k, v) \<Rightarrow> v < max_slot builtin_FIELD_MAP + 1 + slots_before cols i"
    by (simp add: e)
qed

text \<open>
  Witness for C1: three columns, iterated in the order \<open>mood\<close>, \<open>saga\<close> (a series),
  \<open>genre\<close>.
\<close>

theorem initialize_tables_slots_witness:
  "initialize_tables [text_column ''mood'' 4, series_column ''saga'' 2, text_column ''genre'' 7] (Name ''title'') = Some 1 \<and>
   initialize_tables [text_column ''mood'' 4, series_column ''saga'' 2, text_column ''genre'' 7] (Num 4) = Some 22 \<and>
   initialize_tables [text_column ''mood'' 4, series_column ''saga'' 2, text_column ''genre'' 7] (Num 2) = Some 23 \<and>
   initialize_tables [text_column ''mood'' 4, series_column ''saga'' 2, text_column ''genre'' 7] (Name ''2_index'') = Some 24 \<and>
   initialize_tables [text_column ''mood'' 4, series_column ''saga'' 2, text_column ''genre'' 7] (Num 7) = Some 25"
proof -
  let ?cols = "[text_column ''mood'' 4, series_column ''saga'' 2, text_column ''genre'' 7]"
  have d: "distinct (map (\<lambda>c. num (snd c)) ?cols)"
    by (simp add: text_column_def series_column_def)
  have s: "str_int 2 = ''2''" by code_simp
  note t = initialize_tables_slots[OF d]
  have b: "(Name ''title'', 1) \<in> set builtin_FIELD_MAP" by (simp add: builtin_FIELD_MAP_def)
  from t b have 1: "initialize_tables ?cols (Name ''title'') = Some 1" by blast
  note c = t[THEN conjunct2, rule_format]
  have 2: "initialize_tables ?cols (Num 4) = Some (max_slot builtin_FIELD_MAP + 1 + slots_before ?cols 0)"
    using c[of 0] by (simp add: text_column_def)
  have 3: "initialize_tables ?cols (Num 2) = Some (max_slot builtin_FIELD_MAP + 1 + slots_before ?cols 1)
     \<and> initialize_tables ?cols (Name (str_int 2 @ ''_index'')) = Some (max_slot builtin_FIELD_MAP + 2 + slots_before ?cols 1)"
    using c[of 1] by (simp add: series_column_def)
  have 4: "initialize_tables ?cols (Num 7) = Some (max_slot builtin_FIELD_MAP + 1 + slots_before ?cols 2)"
    using c[of 2] by (simp add: text_column_def)
  show ?thesis using 1 2 3 4 s
    by (simp add: max_slot_builtin slots_before_def slot_width_def text_column_def series_column_def)
qed

text \<open>
  Counterexample to C1 as stated (slots in ascending order of the labels).  A Python 2
  dictionary is iterated in the order of its hash table, not of its keys: the dictionary
  with the labels \<open>a\<close>, \<open>b\<close>, \<open>c\<close> yields \<open>a\<close>, \<open>c\<close>, \<open>b\<close>.  Then \<open>c\<close> (number 3) gets
  slot 23 and \<open>b\<close> (number 2) gets slot 24.
\<close>

theorem initialize_tables_label_order_counterexample:
  "initialize_tables [text_column ''a'' 1, text_column ''c'' 3, text_column ''b'' 2] (Num 3) = Some 23 \<and>
   initialize_tables [text_column ''a'' 1, text_column ''c'' 3, text_column ''b'' 2] (Num 2) = Some 24 \<and>
   \<not> slots_label_sorted [text_column ''a'' 1, text_column ''c'' 3, text_column ''b'' 2]
        (initialize_tables [text_column ''a'' 1, text_column ''c'' 3, text_column ''b'' 2])"
  by (simp add: slots_label_sorted_def text_column_def initialize_tables_def max_slot_builtin)

subsection \<open>The preference store\<close>


lemma map_of_replace_row:
  "map_of (filter (\<lambda>(k, v). k \<noteq> key) rows @ [(key, raw)]) = (map_of rows)(key \<mapsto> raw)"
proof
  fix k
  have f: "map_of (filter (\<lambda>(k, v). k \<noteq> key) rows) k = (if k = key then None else map_of rows k)"
    by (induction rows) auto
  show "map_of (filter (\<lambda>(k, v). k \<noteq> key) rows @ [(key, raw)]) k = ((map_of rows)(key \<mapsto> raw)) k"
    by (simp add: f map_add_def split: option.splits)
qed

text \<open>
  C3.  In every state \<open>__setitem__\<close> passes through (the states a crash can leave behind
  included), either the items of the dictionary are still those at the call, or they are
  those with \<open>key\<close> set to \<open>val\<close> and the table already holds the serialisation of \<open>val\<close>
  under \<open>key\<close>: the dictionary is never ahead of the table.
\<close>

theorem setitem_mirror_never_ahead:
  "\<forall>s \<in> set (fst (setitem_trace c refused key val p)).
     items s = items p \<or>
     (items s = (items p)(key \<mapsto> val) \<and>
      (\<exists>raw. to_raw c val = Inr raw \<and> map_of (preferences s) key = Some raw))"
  by (auto simp: setitem_trace_def insert_or_replace_def Let_def map_of_replace_row
      simp del: map_of_append split: sum.splits if_splits)

text \<open>
  Witness for C3: setting \<open>bools_are_tristate\<close> to \<open>True\<close> in a store that holds \<open>False\<close>.
  The call passes through three states; in the second the table holds \<open>true\<close> and the
  dictionary still \<open>False\<close>.
\<close>

theorem setitem_mirror_never_ahead_witness:
  "length (fst (setitem_trace bool_codec False ''bools_are_tristate'' True example_prefs)) = 3 \<and>
   map_of (preferences (fst (setitem_trace bool_codec False ''bools_are_tristate'' True example_prefs) ! 1))
     ''bools_are_tristate'' = Some ''true'' \<and>
   items (fst (setitem_trace bool_codec False ''bools_are_tristate'' True example_prefs) ! 1)
     ''bools_are_tristate'' = Some False \<and>
   map_of (preferences (fst (setitem_trace bool_codec False ''bools_are_tristate'' True example_prefs) ! 2))
     ''bools_are_tristate'' = Some ''true'' \<and>
   items (fst (setitem_trace bool_codec False ''bools_are_tristate'' True example_prefs) ! 2)
     ''bools_are_tristate'' = Some True"
  using setitem_mirror_never_ahead [of bool_codec False "''bools_are_tristate''" True example_prefs]
  by (simp add: setitem_trace_def insert_or_replace_def example_prefs_def DBPrefs_init_def
      bool_codec_def Let_def)

text \<open>
  C10.  With \<open>disable_setting\<close> on, \<open>__setitem__\<close> and \<open>set\<close> return without an exception
  and leave the store (table and dictionary) as it was.  With the flag off, a value that
  can be serialised, on a database that takes the statement, is stored in the table and
  in the dictionary.
\<close>

theorem disable_setting_noop:
  "(disable_setting p \<longrightarrow>
      DBPrefs_setitem c refused key val p = (p, None) \<and> DBPrefs_set c refused key val p = (p, None)) \<and>
   (\<not> disable_setting p \<and> to_raw c val = Inr raw \<and> \<not> refused \<longrightarrow>
      (\<exists>p'. DBPrefs_set c refused key val p = (p', None) \<and>
            map_of (preferences p') key = Some raw \<and> items p' key = Some val))"
  by (auto simp: DBPrefs_set_def DBPrefs_setitem_def setitem_trace_def insert_or_replace_def Let_def
      map_of_replace_row simp del: map_of_append)

text \<open>
  Witness for C10: setting \<open>bools_are_tristate\<close> with the flag on changes nothing; with the
  flag off the value is in the dictionary and its serialisation in the table.
\<close>

theorem disable_setting_noop_witness:
  "DBPrefs_set bool_codec False ''bools_are_tristate'' True (example_prefs\<lparr>disable_setting := True\<rparr>)
     = (example_prefs\<lparr>disable_setting := True\<rparr>, None) \<and>
   items (fst (DBPrefs_set bool_codec False ''bools_are_tristate'' True example_prefs))
     ''bools_are_tristate'' = Some True \<and>
   map_of (preferences (fst (DBPrefs_set bool_codec False ''bools_are_tristate'' True example_prefs)))
     ''bools_are_tristate'' = Some ''true''"
proof -
  have 1: "disable_setting (example_prefs\<lparr>disable_setting := True\<rparr>)" by simp
  have 2: "\<not> disable_setting example_prefs \<and> to_raw bool_codec True = Inr ''true'' \<and> \<not> False"
    by (simp add: example_prefs_def DBPrefs_init_def bool_codec_def)
  from 1 disable_setting_noop [where p = "example_prefs\<lparr>disable_setting := True\<rparr>"
      and c = bool_codec and refused = False and key = "''bools_are_tristate''" and val = True]
  have a: "DBPrefs_set bool_codec False ''bools_are_tristate'' True (example_prefs\<lparr>disable_setting := True\<rparr>)
     = (example_prefs\<lparr>disable_setting := True\<rparr>, None)" by blast
  from 2 disable_setting_noop [where p = example_prefs and c = bool_codec and refused = False
      and key = "''bools_are_tristate''" and val = True and raw = "''true''"]
  obtain p' where "DBPrefs_set bool_codec False ''bools_are_tristate'' True example_prefs = (p', None)"
    "map_of (preferences p') ''bools_are_tristate'' = Some ''true''"
    "items p' ''bools_are_tristate'' = Some True" by blast
  with a show ?thesis by simp
qed



subsection \<open>Names of directories and files\<close>

lemma strip_author_blank:
  "set s \<subseteq> {CHR '' '', CHR ''.''} \<Longrightarrow> strip_author s = Inl IndexError"
proof (induction s rule: rev_induct)
  case Nil
  then show ?case by (simp add: strip_author.simps)
next
  case (snoc c s)
  then show ?case by (subst strip_author.simps) auto
qed

lemma strip_author_Inr:
  "strip_author s = Inr a \<Longrightarrow>
     a \<noteq> [] \<and> last a \<noteq> CHR '' '' \<and> last a \<noteq> CHR ''.'' \<and>
     (\<exists>t. s = a @ t \<and> set t \<subseteq> {CHR '' '', CHR ''.''})"
proof (induction s rule: rev_induct)
  case Nil
  then show ?case by (simp add: strip_author.simps)
next
  case (snoc c s)
  show ?case
  proof (cases "c = CHR '' '' \<or> c = CHR ''.''")
    case True
    with snoc.prems have "strip_author s = Inr a" by (subst (asm) strip_author.simps) auto
    from snoc.IH[OF this] obtain t where "a \<noteq> []" "last a \<noteq> CHR '' ''" "last a \<noteq> CHR ''.''"
      "s = a @ t" "set t \<subseteq> {CHR '' '', CHR ''.''}" by blast
    with True show ?thesis by (auto intro!: exI[of _ "t @ [c]"])
  next
    case False
    with snoc.prems have "a = s @ [c]" by (subst (asm) strip_author.simps) auto
    with False show ?thesis by auto
  qed
qed

lemma decode_blank:
  "set s \<subseteq> {CHR '' '', CHR ''.''} \<Longrightarrow> decode_ascii_replace E s = s"
  unfolding decode_ascii_replace_def by (induction s) auto

text \<open>
  C8.  When the sanitised author, cut to \<open>PATH_LIMIT\<close>, is empty or holds nothing but
  spaces and periods, \<open>construct_path_name\<close> raises \<open>IndexError\<close>: the loop that strips the
  author reads \<open>author[-1]\<close> of the empty text, and the branch that would put the
  translation of \<open>Unknown\<close> is never reached.
\<close>

theorem construct_path_name_blank_author:
  assumes "set (take (PATH_LIMIT E) (ascii_filename E author)) \<subseteq> {CHR '' '', CHR ''.''}"
  shows "construct_path_name E book_id title author = Inl IndexError"
  using assms by (simp add: construct_path_name_def decode_blank strip_author_blank)

text \<open>Witness for C8: the empty author.\<close>

theorem construct_path_name_blank_author_witness:
  "construct_path_name posix_env 7 ''Foo'' '''' = Inl IndexError"
proof -
  have "set (take (PATH_LIMIT posix_env) (ascii_filename posix_env '''')) \<subseteq> {CHR '' '', CHR ''.''}"
    by (simp add: posix_env_def)
  from construct_path_name_blank_author [OF this] show ?thesis .
qed

text \<open>
  What \<open>construct_path_name\<close> returns when it returns: the author segment is the sanitised
  author cut to \<open>PATH_LIMIT\<close> without its trailing spaces and periods, never empty and
  never the translation of \<open>Unknown\<close> put in for an empty one.
\<close>

lemma construct_path_name_shape:
  assumes "construct_path_name E book_id title author = Inr p"
  shows "\<exists>a t. a \<noteq> [] \<and> last a \<noteq> CHR '' '' \<and> last a \<noteq> CHR ''.'' \<and>
           set t \<subseteq> {CHR '' '', CHR ''.''} \<and>
           decode_ascii_replace E (take (PATH_LIMIT E) (ascii_filename E author)) = a @ t \<and>
           p = a @ ''/'' @ decode_ascii_replace E (take (PATH_LIMIT E) (ascii_filename E title))
                 @ '' ('' @ str_int book_id @ '')''"
proof -
  let ?au = "decode_ascii_replace E (take (PATH_LIMIT E) (ascii_filename E author))"
  from assms obtain a where a: "strip_author ?au = Inr a"
    by (auto simp: construct_path_name_def Let_def split: sum.splits)
  from strip_author_Inr[OF a] obtain t where t: "a \<noteq> []" "last a \<noteq> CHR '' ''" "last a \<noteq> CHR ''.''"
    "?au = a @ t" "set t \<subseteq> {CHR '' '', CHR ''.''}" by blast
  from assms a t(1) have "p = a @ ''/'' @ decode_ascii_replace E (take (PATH_LIMIT E) (ascii_filename E title))
                 @ '' ('' @ str_int book_id @ '')''"
    by (simp add: construct_path_name_def Let_def)
  with t show ?thesis by blast
qed

lemma construct_path_name_example:
  "construct_path_name posix_env 7 ''Foo'' ''Bar'' = Inr ''Bar/Foo (7)''"
  by (simp add: construct_path_name_def posix_env_def PATH_LIMIT_def decode_ascii_replace_def
      strip_author.simps str_int_def str_nat.simps digit_char_def)

subsection \<open>Format files\<close>

lemma hash_chunks_all:
  "0 < spool \<Longrightarrow> hash_chunks spool rest sha = Some (sha @ rest)"
proof (induction "length rest" arbitrary: rest sha rule: less_induct)
  case less
  show ?case
  proof (cases "length rest < spool")
    case True
    then show ?thesis by (subst hash_chunks.simps) (simp add: Let_def)
  next
    case False
    with less.prems have "length (drop spool rest) < length rest" by simp
    from less.hyps[OF this less.prems]
    have "hash_chunks spool (drop spool rest) (sha @ take spool rest) = Some ((sha @ take spool rest) @ drop spool rest)" .
    with False show ?thesis by (subst hash_chunks.simps) (simp add: Let_def min_def)
  qed
qed

lemma format_abspath_error:
  "format_abspath E db book_id fmt fname path fs = (Inl e, fs') \<Longrightarrow> e = IOError"
  by (auto simp: format_abspath_def Let_def copyfile_def lopen_rb_def write_file_def
      split: if_splits sum.splits option.splits)

lemma lopen_rb_error: "lopen_rb fs p = Inl e \<Longrightarrow> e = IOError"
  by (auto simp: lopen_rb_def split: option.splits if_splits)

text \<open>
  C7.  With a positive chunk size \<open>format_hash\<close> returns.  It raises \<open>NoSuchFormat\<close>
  exactly when \<open>format_abspath\<close> resolves no file for the record and format; and when
  the file is resolved and can be read, the result is the SHA-256 hex digest of the whole
  content of the file, whatever the chunk size: a function of the bytes alone, equal to the
  digest computed over the same bytes in one piece.
\<close>

theorem format_hash_digest:
  assumes "0 < SPOOL_SIZE E"
  shows "\<exists>r fs'. format_hash E db book_id fmt fname path fs = Some (r, fs') \<and>
           (r = Inl NoSuchFormat \<longleftrightarrow> fst (format_abspath E db book_id fmt fname path fs) = Inr None) \<and>
           (\<forall>p content. fst (format_abspath E db book_id fmt fname path fs) = Inr (Some p) \<and>
                lopen_rb fs' p = Inr content \<longrightarrow> r = Inr (sha256_hexdigest E content))"
proof -
  obtain a fs1 where a: "format_abspath E db book_id fmt fname path fs = (a, fs1)"
    by (cases "format_abspath E db book_id fmt fname path fs")
  show ?thesis
  proof (cases a)
    case (Inl e)
    with a format_abspath_error have "e = IOError" by blast
    with a Inl show ?thesis by (simp add: format_hash_def)
  next
    case (Inr po)
    show ?thesis
    proof (cases po)
      case None
      with a Inr show ?thesis by (simp add: format_hash_def)
    next
      case (Some p)
      show ?thesis
      proof (cases "lopen_rb fs1 p")
        case (Inl e)
        with lopen_rb_error have "e = IOError" by blast
        with a Inr Some Inl show ?thesis by (simp add: format_hash_def)
      next
        case r: (Inr content)
        with a Inr Some show ?thesis
          by (simp add: format_hash_def hash_chunks_all[OF assms])
      qed
    qed
  qed
qed

text \<open>
  Witness for C7: the ten bytes of the EPUB file are read in chunks of four; no MOBI file
  exists.
\<close>

theorem format_hash_digest_witness:
  "format_hash posix_env example_db 7 ''EPUB'' ''Foo - Bar'' ''Bar/Foo (7)'' example_fs
     = Some (Inr ''sha256:EPUB-bytes'', example_fs) \<and>
   format_hash posix_env example_db 7 ''MOBI'' ''Foo - Bar'' ''Bar/Foo (7)'' example_fs
     = Some (Inl NoSuchFormat, example_fs)"
proof -
  have s: "0 < SPOOL_SIZE posix_env" by (simp add: posix_env_def)
  have l: "str_lower posix_env ''EPUB'' = ''epub''" "str_lower posix_env ''MOBI'' = ''mobi''"
    by (simp_all add: posix_env_def ascii_lower_def)
  have 1: "format_abspath posix_env example_db 7 ''EPUB'' ''Foo - Bar'' ''Bar/Foo (7)'' example_fs
          = (Inr (Some ''/lib/Bar/Foo (7)/Foo - Bar.epub''), example_fs)"
    by (simp add: format_abspath_def l example_db_def example_fs_def path_join_def join1_def
        path_exists_def Let_def)
  have 2: "lopen_rb example_fs ''/lib/Bar/Foo (7)/Foo - Bar.epub'' = Inr ''EPUB-bytes''"
    by (simp add: lopen_rb_def example_fs_def)
  have g: "glob posix_env example_fs ''/lib/Bar/Foo (7)/*.mobi'' = Inr []"
    by code_simp
  have 3: "format_abspath posix_env example_db 7 ''MOBI'' ''Foo - Bar'' ''Bar/Foo (7)'' example_fs
          = (Inr None, example_fs)"
    by (simp add: format_abspath_def l g example_db_def path_join_def join1_def Let_def)
       (simp add: example_fs_def path_exists_def)
  from format_hash_digest [OF s, of example_db 7 "''EPUB''" "''Foo - Bar''" "''Bar/Foo (7)''" example_fs]
  obtain r fs' where e: "format_hash posix_env example_db 7 ''EPUB'' ''Foo - Bar'' ''Bar/Foo (7)'' example_fs = Some (r, fs')"
    and d: "\<forall>p content. fst (format_abspath posix_env example_db 7 ''EPUB'' ''Foo - Bar'' ''Bar/Foo (7)'' example_fs) = Inr (Some p) \<and>
                lopen_rb fs' p = Inr content \<longrightarrow> r = Inr (sha256_hexdigest posix_env content)"
    by blast
  from e 1 have f: "fs' = example_fs" by (auto simp: format_hash_def 2 split: option.splits)
  from d 1 2 f have "r = Inr (sha256_hexdigest posix_env ''EPUB-bytes'')" by simp
  then have a: "format_hash posix_env example_db 7 ''EPUB'' ''Foo - Bar'' ''Bar/Foo (7)'' example_fs
     = Some (Inr ''sha256:EPUB-bytes'', example_fs)" using e f by (simp add: posix_env_def)
  from format_hash_digest [OF s, of example_db 7 "''MOBI''" "''Foo - Bar''" "''Bar/Foo (7)''" example_fs]
  obtain r2 fs2 where e2: "format_hash posix_env example_db 7 ''MOBI'' ''Foo - Bar'' ''Bar/Foo (7)'' example_fs = Some (r2, fs2)"
    and n: "r2 = Inl NoSuchFormat \<longleftrightarrow> fst (format_abspath posix_env example_db 7 ''MOBI'' ''Foo - Bar'' ''Bar/Foo (7)'' example_fs) = Inr None"
    by blast
  from n 3 have "r2 = Inl NoSuchFormat" by simp
  moreover from e2 3 have "fs2 = example_fs" by (auto simp: format_hash_def)
  ultimately show ?thesis using a e2 by simp
qed

subsection \<open>Deleting trees\<close>




subsection \<open>Keeping the files with the metadata\<close>















lemma example_names:
  "construct_path_name posix_env 7 ''Foo2'' ''Bar'' = Inr ''Bar/Foo2 (7)''"
  "construct_file_name posix_env 7 ''Foo2'' ''Bar'' = ''Foo2 - Bar''"
  "construct_path_name posix_env 7 ''Foo'' ''Bar'' = Inr ''Bar/Foo (7)''"
  "construct_file_name posix_env 7 ''Foo'' ''Bar'' = ''Foo - Bar''"
  by code_simp+

lemma example_meta_reads:
  "path_for_book example_meta 7 = ''Bar/Foo (7)''"
  "formats_for_book example_meta 7 = [''EPUB'', ''PDF'']"
  "format_fname example_meta 7 ''EPUB'' = ''Foo - Bar''"
  "format_fname example_meta 7 ''PDF'' = ''Foo - Bar''"
  by (simp_all add: path_for_book_def formats_for_book_def format_fname_def example_meta_def)

lemma example_dirs:
  "source_dir example_db example_meta 7 = ''/lib/Bar/Foo (7)''"
  "target_dir example_db ''Bar/Foo2 (7)'' = ''/lib/Bar/Foo2 (7)''"
  by (simp_all add: source_dir_def target_dir_def example_meta_reads example_db_def
      path_join_def join1_def)






lemma fold_set_fname:
  "book_path (fold (\<lambda>fmt m. set_fname m book_id fmt fname) fmts m) = book_path m \<and>
   book_formats (fold (\<lambda>fmt m. set_fname m book_id fmt fname) fmts m) = book_formats m \<and>
   fname_map (fold (\<lambda>fmt m. set_fname m book_id fmt fname) fmts m)
     = (\<lambda>k. if fst k = book_id \<and> snd k \<in> set fmts then Some fname else fname_map m k)"
  by (induction fmts arbitrary: m) (auto simp: set_fname_def)

lemma synced_after:
  assumes "m2 = set_path (fold (\<lambda>fmt m. set_fname m book_id fmt fname) (formats_for_book m book_id) m) book_id path"
  shows "path_for_book m2 book_id = path \<and> formats_for_book m2 book_id = formats_for_book m book_id \<and>
         (\<forall>fmt \<in> set (formats_for_book m book_id). format_fname m2 book_id fmt = fname)"
  using fold_set_fname[of book_id fname "formats_for_book m book_id" m] assms
  by (auto simp: path_for_book_def formats_for_book_def format_fname_def set_path_def)

lemma update_path_fast:
  assumes "construct_path_name E book_id title author = Inr (path_for_book m book_id)"
    and "\<forall>fmt \<in> set (formats_for_book m book_id).
           format_fname m book_id fmt = [] \<or>
           format_fname m book_id fmt = construct_file_name E book_id title author"
  shows "update_path E db book_id title author m fs = (Inr (), m, fs)"
proof -
  from assms(2) have "\<not> list_ex (\<lambda>fmt. format_fname m book_id fmt \<noteq> [] \<and>
        format_fname m book_id fmt \<noteq> construct_file_name E book_id title author) (formats_for_book m book_id)"
    by (auto simp: list_ex_iff)
  with assms(1) show ?thesis by (simp add: update_path_def Let_def)
qed

lemma update_path_success_meta:
  assumes "update_path E db book_id title author m fs = (Inr (), m', fs')"
  shows "\<exists>path. construct_path_name E book_id title author = Inr path \<and>
           ((path = path_for_book m book_id \<and>
             (\<forall>fmt \<in> set (formats_for_book m book_id).
                format_fname m book_id fmt = [] \<or>
                format_fname m book_id fmt = construct_file_name E book_id title author) \<and> m' = m)
            \<or> m' = set_path (fold (\<lambda>fmt m. set_fname m book_id fmt
                                      (construct_file_name E book_id title author))
                                 (formats_for_book m book_id) m) book_id path)"
  using assms
  by (auto simp: update_path_def Let_def list_ex_iff split: sum.splits if_splits prod.splits)

text \<open>
  C5.  When the computed path is the stored path of the record and every stored stem of a
  format is the computed stem (or is empty), \<open>update_path\<close> returns at once: the metadata
  and the file system are as they were.  And after a call of \<open>update_path\<close> that returned,
  a second call with the same title and author returns at once on any state of the file
  system, leaving it untouched.
\<close>

theorem update_path_idempotent:
  "(construct_path_name E book_id title author = Inr (path_for_book m book_id) \<and>
    (\<forall>fmt \<in> set (formats_for_book m book_id).
       format_fname m book_id fmt = [] \<or>
       format_fname m book_id fmt = construct_file_name E book_id title author)
      \<longrightarrow> update_path E db book_id title author m fs = (Inr (), m, fs)) \<and>
   (update_path E db book_id title author m fs = (Inr (), m', fs')
      \<longrightarrow> (\<forall>fs''. update_path E db book_id title author m' fs'' = (Inr (), m', fs'')))"
proof (intro conjI impI allI)
  assume "construct_path_name E book_id title author = Inr (path_for_book m book_id) \<and>
    (\<forall>fmt \<in> set (formats_for_book m book_id).
       format_fname m book_id fmt = [] \<or>
       format_fname m book_id fmt = construct_file_name E book_id title author)"
  then show "update_path E db book_id title author m fs = (Inr (), m, fs)"
    using update_path_fast by blast
next
  fix fs''
  assume a: "update_path E db book_id title author m fs = (Inr (), m', fs')"
  from update_path_success_meta[OF a] obtain path where
    p: "construct_path_name E book_id title author = Inr path" and
    c: "(path = path_for_book m book_id \<and>
             (\<forall>fmt \<in> set (formats_for_book m book_id).
                format_fname m book_id fmt = [] \<or>
                format_fname m book_id fmt = construct_file_name E book_id title author) \<and> m' = m)
            \<or> m' = set_path (fold (\<lambda>fmt m. set_fname m book_id fmt
                                      (construct_file_name E book_id title author))
                                 (formats_for_book m book_id) m) book_id path"
    by blast
  from c show "update_path E db book_id title author m' fs'' = (Inr (), m', fs'')"
  proof
    assume "path = path_for_book m book_id \<and>
             (\<forall>fmt \<in> set (formats_for_book m book_id).
                format_fname m book_id fmt = [] \<or>
                format_fname m book_id fmt = construct_file_name E book_id title author) \<and> m' = m"
    with p show ?thesis using update_path_fast by blast
  next
    assume "m' = set_path (fold (\<lambda>fmt m. set_fname m book_id fmt
                                      (construct_file_name E book_id title author))
                                 (formats_for_book m book_id) m) book_id path"
    from synced_after[OF this] p show ?thesis
      by (intro update_path_fast) auto
  qed
qed

lemma example_update:
  "fst (update_path posix_env example_db 7 ''Foo2'' ''Bar'' example_meta example_fs) = Inr ()"
proof -
  have ex: "path_exists example_fs ''/lib/Bar/Foo (7)''" "\<not> path_exists example_fs ''/lib/Bar/Foo2 (7)''"
    by code_simp+
  have w: "\<not> iswindows posix_env" by (simp add: posix_env_def)
  have c: "is_case_sensitive example_db" by (simp add: example_db_def)
  let ?fs1 = "example_fs\<lparr>dirs := dirs example_fs @ [''/lib/Bar/Foo2 (7)'']\<rparr>"
  let ?fs2 = "example_fs\<lparr>dirs := dirs example_fs @ [''/lib/Bar/Foo2 (7)''],
       files := files example_fs @ [(''/lib/Bar/Foo2 (7)/cover.jpg'', ''JPEG''),
                                     (''/lib/Bar/Foo2 (7)/Foo2 - Bar.epub'', ''EPUB-bytes''),
                                     (''/lib/Bar/Foo2 (7)/Foo2 - Bar.pdf'', ''PDF-bytes'')]\<rparr>"
  have mk: "makedirs example_fs ''/lib/Bar/Foo2 (7)'' = Inr ?fs1" by code_simp
  have mg: "migrate_files posix_env example_db example_meta 7 ''Bar/Foo (7)'' ''/lib/Bar/Foo2 (7)''
              ''Foo2 - Bar'' False [''EPUB'', ''PDF''] ?fs1 = (Inr (), ?fs2)"
    by code_simp
  have dl: "fst (delete_source posix_env example_db ''/lib/Bar/Foo (7)'' ''/lib/Bar/Foo2 (7)'' False ?fs2) = Inr ()"
    by code_simp
  obtain fs3 where dl': "delete_source posix_env example_db ''/lib/Bar/Foo (7)'' ''/lib/Bar/Foo2 (7)'' False ?fs2 = (Inr (), fs3)"
    using dl by (cases "delete_source posix_env example_db ''/lib/Bar/Foo (7)'' ''/lib/Bar/Foo2 (7)'' False ?fs2") auto
  show ?thesis
    using example_dirs
    by (simp add: update_path_def example_names example_meta_reads w c ex mk mg dl'
        source_dir_def target_dir_def Let_def)
qed

text \<open>
  Witness for C5: record 7 is in sync under the title \<open>Foo\<close>, so the call returns at once;
  and after the move to the title \<open>Foo2\<close>, a second call with \<open>Foo2\<close> leaves the file
  system it finds as it is.
\<close>

theorem update_path_idempotent_witness:
  "update_path posix_env example_db 7 ''Foo'' ''Bar'' example_meta example_fs
     = (Inr (), example_meta, example_fs) \<and>
   snd (snd (update_path posix_env example_db 7 ''Foo2'' ''Bar''
               (fst (snd (update_path posix_env example_db 7 ''Foo2'' ''Bar'' example_meta example_fs)))
               (snd (snd (update_path posix_env example_db 7 ''Foo2'' ''Bar'' example_meta example_fs)))))
     = snd (snd (update_path posix_env example_db 7 ''Foo2'' ''Bar'' example_meta example_fs))"
proof -
  obtain m' fs' where u: "update_path posix_env example_db 7 ''Foo2'' ''Bar'' example_meta example_fs = (Inr (), m', fs')"
    using example_update by (cases "update_path posix_env example_db 7 ''Foo2'' ''Bar'' example_meta example_fs") auto
  have 1: "construct_path_name posix_env 7 ''Foo'' ''Bar'' = Inr (path_for_book example_meta 7) \<and>
    (\<forall>fmt \<in> set (formats_for_book example_meta 7).
       format_fname example_meta 7 fmt = [] \<or>
       format_fname example_meta 7 fmt = construct_file_name posix_env 7 ''Foo'' ''Bar'')"
    by (simp add: example_names example_meta_reads)
  from 1 update_path_idempotent [of posix_env 7 "''Foo''" "''Bar''" example_meta example_db example_fs]
  have a: "update_path posix_env example_db 7 ''Foo'' ''Bar'' example_meta example_fs
     = (Inr (), example_meta, example_fs)" by blast
  from u update_path_idempotent [of posix_env 7 "''Foo2''" "''Bar''" example_meta example_db example_fs m' fs']
  have "update_path posix_env example_db 7 ''Foo2'' ''Bar'' m' fs' = (Inr (), m', fs')" by blast
  with a u show ?thesis by simp
qed

subsection \<open>User categories that differ in case only\<close>

lemma build_catmap_step:
  "map_of (AList.update (icu_lower E uc)
             ((case map_of (if icu_lower E uc \<notin> fst ` set cm then AList.update (icu_lower E uc) [] cm else cm)
                      (icu_lower E uc) of Some names \<Rightarrow> names | None \<Rightarrow> []) @ [uc])
             (if icu_lower E uc \<notin> fst ` set cm then AList.update (icu_lower E uc) [] cm else cm))
   = (map_of cm)(icu_lower E uc \<mapsto> (case map_of cm (icu_lower E uc) of None \<Rightarrow> [] | Some g \<Rightarrow> g) @ [uc])"
proof (cases "icu_lower E uc \<in> fst ` set cm")
  case True
  then obtain g where "map_of cm (icu_lower E uc) = Some g"
    by (metis map_of_eq_None_iff not_None_eq)
  with True show ?thesis by (simp add: update_conv')
next
  case False
  then have "map_of cm (icu_lower E uc) = None" by (simp add: map_of_eq_None_iff)
  with False show ?thesis by (simp add: update_conv')
qed

lemma build_catmap_map_of:
  "map_of (build_catmap E ns cm) l =
     (if map_of cm l = None \<and> [x \<leftarrow> ns. icu_lower E x = l] = [] then None
      else Some ((case map_of cm l of None \<Rightarrow> [] | Some g \<Rightarrow> g) @ [x \<leftarrow> ns. icu_lower E x = l]))"
proof (induction ns arbitrary: cm)
  case Nil
  show ?case by (cases "map_of cm l") simp_all
next
  case (Cons uc ucs)
  define cm2 where "cm2 = AList.update (icu_lower E uc)
             ((case map_of (if icu_lower E uc \<notin> fst ` set cm then AList.update (icu_lower E uc) [] cm else cm)
                      (icu_lower E uc) of Some names \<Rightarrow> names | None \<Rightarrow> []) @ [uc])
             (if icu_lower E uc \<notin> fst ` set cm then AList.update (icu_lower E uc) [] cm else cm)"
  have m2: "map_of cm2 = (map_of cm)(icu_lower E uc \<mapsto> (case map_of cm (icu_lower E uc) of None \<Rightarrow> [] | Some g \<Rightarrow> g) @ [uc])"
    unfolding cm2_def by (rule build_catmap_step)
  have b: "build_catmap E (uc # ucs) cm = build_catmap E ucs cm2"
    unfolding cm2_def by (simp add: Let_def)
  show ?case
  proof (cases "icu_lower E uc = l")
    case True
    then have "map_of cm2 l = Some ((case map_of cm l of None \<Rightarrow> [] | Some g \<Rightarrow> g) @ [uc])"
      by (simp add: m2)
    then have "map_of (build_catmap E ucs cm2) l
        = Some (((case map_of cm l of None \<Rightarrow> [] | Some g \<Rightarrow> g) @ [uc]) @ [x \<leftarrow> ucs. icu_lower E x = l])"
      by (simp add: Cons.IH[of cm2])
    with True show ?thesis unfolding b by simp
  next
    case False
    then have "map_of cm2 l = map_of cm l" by (simp add: m2)
    then have "map_of (build_catmap E ucs cm2) l
        = (if map_of cm l = None \<and> [x \<leftarrow> ucs. icu_lower E x = l] = [] then None
           else Some ((case map_of cm l of None \<Rightarrow> [] | Some g \<Rightarrow> g) @ [x \<leftarrow> ucs. icu_lower E x = l]))"
      by (simp add: Cons.IH[of cm2])
    with False show ?thesis unfolding b by simp
  qed
qed

lemma build_catmap_distinct:
  "distinct (map fst cm) \<Longrightarrow> distinct (map fst (build_catmap E ns cm))"
  by (induction ns arbitrary: cm) (auto simp: Let_def distinct_update)

lemma catmap_lookup:
  "map_of (build_catmap E (map fst user_cats) []) l =
     (if overlap E user_cats l = [] then None else Some (overlap E user_cats l))"
  by (simp add: build_catmap_map_of overlap_def)

lemma overlap_empty: "overlap E user_cats l = [] \<longleftrightarrow> l \<notin> icu_lower E ` fst ` set user_cats"
  by (auto simp: overlap_def filter_empty_conv)

lemma catmap_keys:
  "fst ` set (build_catmap E (map fst user_cats) []) = icu_lower E ` fst ` set user_cats"
proof -
  have "fst ` set (build_catmap E (map fst user_cats) []) = dom (map_of (build_catmap E (map fst user_cats) []))"
    by (simp add: dom_map_of_conv_image_fst)
  also have "\<dots> = {l. overlap E user_cats l \<noteq> []}"
    by (auto simp: catmap_lookup dom_def)
  also have "\<dots> = icu_lower E ` fst ` set user_cats"
    using overlap_empty by blast
  finally show ?thesis .
qed

lemma find_suffix_reach:
  assumes "s \<le> n" "icu_lower E (c @ str_nat n) \<notin> fst ` set cm"
    "\<forall>k. s \<le> k \<and> k < n \<longrightarrow> icu_lower E (c @ str_nat k) \<in> fst ` set cm"
  shows "find_suffix E cm c s = Some n"
  using assms
proof (induction "n - s" arbitrary: s)
  case 0
  then have "s = n" by simp
  with 0 show ?case by (subst find_suffix.simps) simp
next
  case (Suc d)
  then have "s < n" by simp
  with Suc.prems have in_k: "icu_lower E (c @ str_nat s) \<in> fst ` set cm" by simp
  have "find_suffix E cm c (s + 1) = Some n"
    using Suc.hyps(2) Suc.prems \<open>s < n\<close> by (intro Suc.hyps(1)) auto
  with in_k show ?case by (subst find_suffix.simps) simp
qed

lemma free_suffix_exists:
  assumes "\<forall>s n. icu_lower E (s @ str_nat n) = icu_lower E s @ str_nat n"
  shows "\<exists>n. 1 \<le> n \<and> icu_lower E (c @ str_nat n) \<notin> fst ` set (cm :: string list pydict)"
proof (rule ccontr)
  assume "\<not> ?thesis"
  then have all: "\<And>n. 1 \<le> n \<Longrightarrow> icu_lower E c @ str_nat n \<in> fst ` set cm" using assms by auto
  let ?f = "\<lambda>n. icu_lower E c @ str_nat (Suc n)"
  have "inj ?f" by (auto simp: inj_on_def dest: str_nat_inj)
  moreover have "range ?f \<subseteq> fst ` set cm" using all by auto
  then have "finite (range ?f)" by (rule finite_subset) simp
  ultimately have "finite (UNIV :: nat set)" by (rule finite_imageD[rotated])
  then show False by simp
qed

lemma find_suffix_least:
  assumes "\<forall>s n. icu_lower E (s @ str_nat n) = icu_lower E s @ str_nat n"
  shows "\<exists>n. find_suffix E cm c 1 = Some n \<and> 1 \<le> n \<and>
             icu_lower E (c @ str_nat n) \<notin> fst ` set cm \<and>
             (\<forall>k. 1 \<le> k \<and> k < n \<longrightarrow> icu_lower E (c @ str_nat k) \<in> fst ` set cm)"
proof -
  let ?P = "\<lambda>n. 1 \<le> n \<and> icu_lower E (c @ str_nat n) \<notin> fst ` set cm"
  from free_suffix_exists[OF assms] obtain n0 where "?P n0" by blast
  define n where "n = (LEAST n. ?P n)"
  have P: "?P n" unfolding n_def using \<open>?P n0\<close> by (rule LeastI)
  have least: "\<And>k. k < n \<Longrightarrow> \<not> ?P k" unfolding n_def by (rule not_less_Least)
  have "find_suffix E cm c 1 = Some n"
    using P least by (intro find_suffix_reach) auto
  with P least show ?thesis by blast
qed

lemma find_suffix_free:
  assumes "\<forall>s n. icu_lower E (s @ str_nat n) = icu_lower E s @ str_nat n"
  shows "\<exists>n. find_suffix E cm c 1 = Some n \<and> least_free_suffix E (fst ` set cm) c n"
  using find_suffix_least[OF assms, of cm c] unfolding least_free_suffix_def by blast

lemma least_free_unique:
  "least_free_suffix E K c n \<Longrightarrow> least_free_suffix E K c n' \<Longrightarrow> n = n'"
  unfolding least_free_suffix_def by (metis linorder_neqE_nat)

lemma rename_map_other: "x \<noteq> c \<Longrightarrow> x \<noteq> c @ str_nat n \<Longrightarrow> rename_map c n d x = d x"
  by (simp add: rename_map_def)

lemma rename_map_head: "rename_map c n d c = None"
  by (simp add: rename_map_def)

lemma rename_map_target: "rename_map c n d (c @ str_nat n) = d c"
  using str_nat_nonempty[of n] by (simp add: rename_map_def)

lemma fold_rename_other:
  "\<forall>(c, n) \<in> set ts. x \<noteq> c \<and> x \<noteq> c @ str_nat n \<Longrightarrow>
   fold (\<lambda>(c, n). rename_map c n) ts d x = d x"
  by (induction ts arbitrary: d) (auto simp: rename_map_other)

lemma fold_rename_head:
  assumes "(c, n) \<in> set ts" "distinct (map fst ts)" "\<forall>(c', n') \<in> set ts. c \<noteq> c' @ str_nat n'"
  shows "fold (\<lambda>(c, n). rename_map c n) ts d c = None"
  using assms
proof (induction ts arbitrary: d)
  case Nil
  then show ?case by simp
next
  case (Cons t ts)
  obtain c0 n0 where t: "t = (c0, n0)" by (cases t)
  show ?case
  proof (cases "c0 = c")
    case True
    with Cons.prems t have "\<forall>(c', n') \<in> set ts. c \<noteq> c' \<and> c \<noteq> c' @ str_nat n'" by force
    from fold_rename_other[OF this, of "rename_map c n0 d"] True t show ?thesis
      by (simp add: rename_map_head)
  next
    case False
    with Cons.prems t have "(c, n) \<in> set ts" "distinct (map fst ts)"
      "\<forall>(c', n') \<in> set ts. c \<noteq> c' @ str_nat n'" by auto
    from Cons.IH[OF this] t show ?thesis by simp
  qed
qed

lemma fold_rename_target:
  assumes "(c, n) \<in> set ts" "distinct (map fst ts)"
    "\<forall>(c', n') \<in> set ts. c \<noteq> c' @ str_nat n' \<and> c @ str_nat n \<noteq> c'"
    "\<forall>(c', n') \<in> set ts. c' \<noteq> c \<longrightarrow> c' @ str_nat n' \<noteq> c @ str_nat n"
  shows "fold (\<lambda>(c, n). rename_map c n) ts d (c @ str_nat n) = d c"
  using assms
proof (induction ts arbitrary: d)
  case Nil
  then show ?case by simp
next
  case (Cons t ts)
  obtain c0 n0 where t: "t = (c0, n0)" by (cases t)
  show ?case
  proof (cases "c0 = c")
    case True
    with Cons.prems(1,2) t have n0: "n0 = n" by (force simp: image_iff)
    from True Cons.prems t have "\<forall>(c', n') \<in> set ts. c @ str_nat n \<noteq> c' \<and> c @ str_nat n \<noteq> c' @ str_nat n'"
      by (force simp: image_iff)
    from fold_rename_other[OF this, of "rename_map c n d"] True t n0 show ?thesis
      by (simp add: rename_map_target)
  next
    case False
    with Cons.prems t have p: "(c, n) \<in> set ts" "distinct (map fst ts)"
      "\<forall>(c', n') \<in> set ts. c \<noteq> c' @ str_nat n' \<and> c @ str_nat n \<noteq> c'"
      "\<forall>(c', n') \<in> set ts. c' \<noteq> c \<longrightarrow> c' @ str_nat n' \<noteq> c @ str_nat n" by auto
    from Cons.prems(3) t have "c \<noteq> c0 @ str_nat n0" by auto
    with False have "rename_map c0 n0 d c = d c" by (simp add: rename_map_other)
    with Cons.IH[OF p, of "rename_map c0 n0 d"] t show ?thesis by simp
  qed
qed

lemma rename_step_map:
  "map_of uc c = Some v \<Longrightarrow>
   map_of (AList.delete c (AList.update (c @ str_nat n) v uc)) = rename_map c n (map_of uc)"
  by (simp add: delete_conv' update_conv' rename_map_def)

lemma rename_overlaps_fold:
  assumes digits: "\<forall>s n. icu_lower E (s @ str_nat n) = icu_lower E s @ str_nat n"
    and cm: "\<forall>l \<in> fst ` set cm. map_of cm l = Some (g l) \<and> icu_lower E (hd (g l)) = l"
    and ks: "distinct ks" "set ks \<subseteq> fst ` set cm"
    and pre: "\<forall>l \<in> set ks. 1 < length (g l) \<longrightarrow> map_of uc (hd (g l)) \<noteq> None"
  shows "\<exists>uc' ts. rename_overlaps E cm ks (uc, ch) = Some (None, uc', ch \<or> ts \<noteq> []) \<and>
           map_of uc' = fold (\<lambda>(c, n). rename_map c n) ts (map_of uc) \<and>
           map fst ts = map (\<lambda>l. hd (g l)) [l \<leftarrow> ks. 1 < length (g l)] \<and>
           (\<forall>(c, n) \<in> set ts. least_free_suffix E (fst ` set cm) c n)"
  using ks pre
proof (induction ks arbitrary: uc ch)
  case Nil
  show ?case by (rule exI[of _ uc], rule exI[of _ "[]"]) simp
next
  case (Cons l ks)
  from Cons.prems cm have ml: "map_of cm l = Some (g l)" and low: "icu_lower E (hd (g l)) = l" by auto
  show ?case
  proof (cases "1 < length (g l)")
    case False
    from Cons.prems have "distinct ks" "set ks \<subseteq> fst ` set cm"
      "\<forall>l \<in> set ks. 1 < length (g l) \<longrightarrow> map_of uc (hd (g l)) \<noteq> None" by auto
    from Cons.IH[OF this, of ch] obtain uc' ts where
      r: "rename_overlaps E cm ks (uc, ch) = Some (None, uc', ch \<or> ts \<noteq> [])"
        "map_of uc' = fold (\<lambda>(c, n). rename_map c n) ts (map_of uc)"
        "map fst ts = map (\<lambda>l. hd (g l)) [l \<leftarrow> ks. 1 < length (g l)]"
        "\<forall>(c, n) \<in> set ts. least_free_suffix E (fst ` set cm) c n" by blast
    from False ml r(1) have "rename_overlaps E cm (l # ks) (uc, ch) = Some (None, uc', ch \<or> ts \<noteq> [])"
      by simp
    with r False show ?thesis by auto
  next
    case True
    let ?c = "hd (g l)"
    from find_suffix_free[OF digits, of cm ?c] obtain n where
      n: "find_suffix E cm ?c 1 = Some n" "least_free_suffix E (fst ` set cm) ?c n" by blast
    from Cons.prems True obtain v where v: "map_of uc ?c = Some v" by auto
    let ?uc1 = "AList.delete ?c (AList.update (?c @ str_nat n) v uc)"
    have m1: "map_of ?uc1 = rename_map ?c n (map_of uc)" using v by (rule rename_step_map)
    have step: "rename_overlaps E cm (l # ks) (uc, ch) = rename_overlaps E cm ks (?uc1, True)"
      using ml True n(1) v by (simp add: Let_def)
    have pre1: "\<forall>l' \<in> set ks. 1 < length (g l') \<longrightarrow> map_of ?uc1 (hd (g l')) \<noteq> None"
    proof (intro ballI impI)
      fix l' assume l': "l' \<in> set ks" "1 < length (g l')"
      with Cons.prems cm have "icu_lower E (hd (g l')) = l'" by auto
      moreover from l' Cons.prems(1) have "l' \<noteq> l" by auto
      ultimately have ne: "hd (g l') \<noteq> ?c" using low by auto
      from l' Cons.prems(3) have "map_of uc (hd (g l')) \<noteq> None" by auto
      with ne show "map_of ?uc1 (hd (g l')) \<noteq> None"
        unfolding m1 by (auto simp: rename_map_def v)
    qed
    from Cons.prems have "distinct ks" "set ks \<subseteq> fst ` set cm" by auto
    from Cons.IH[OF this pre1, of True] obtain uc' ts where
      r: "rename_overlaps E cm ks (?uc1, True) = Some (None, uc', True \<or> ts \<noteq> [])"
        "map_of uc' = fold (\<lambda>(c, n). rename_map c n) ts (map_of ?uc1)"
        "map fst ts = map (\<lambda>l. hd (g l)) [l \<leftarrow> ks. 1 < length (g l)]"
        "\<forall>(c, n) \<in> set ts. least_free_suffix E (fst ` set cm) c n" by blast
    show ?thesis
    proof (rule exI[of _ uc'], rule exI[of _ "(?c, n) # ts"], intro conjI)
      show "rename_overlaps E cm (l # ks) (uc, ch) = Some (None, uc', ch \<or> (?c, n) # ts \<noteq> [])"
        using step r(1) by simp
      show "map_of uc' = fold (\<lambda>(c, n). rename_map c n) ((?c, n) # ts) (map_of uc)"
        using r(2) m1 by simp
      show "map fst ((?c, n) # ts) = map (\<lambda>l. hd (g l)) [l \<leftarrow> l # ks. 1 < length (g l)]"
        using r(3) True by simp
      show "\<forall>(c, n) \<in> set ((?c, n) # ts). least_free_suffix E (fst ` set cm) c n"
        using r(4) n(2) by simp
    qed
  qed
qed

lemma rename_overlaps_distinct:
  "rename_overlaps E cm ks (uc, ch) = Some (exc, uc', ch') \<Longrightarrow> distinct (map fst uc)
     \<Longrightarrow> distinct (map fst uc')"
proof (induction ks arbitrary: uc ch)
  case Nil
  then show ?case by simp
next
  case (Cons l ks)
  show ?case
  proof (cases "map_of cm l")
    case None
    with Cons.prems show ?thesis by simp
  next
    case (Some names)
    show ?thesis
    proof (cases "1 < length names")
      case False
      with Some Cons.prems have "rename_overlaps E cm ks (uc, ch) = Some (exc, uc', ch')" by simp
      from Cons.IH[OF this Cons.prems(2)] show ?thesis .
    next
      case True
      show ?thesis
      proof (cases "find_suffix E cm (hd names) 1")
        case None
        with Some True Cons.prems show ?thesis by (simp add: Let_def)
      next
        case n: (Some n)
        show ?thesis
        proof (cases "map_of uc (hd names)")
          case None
          with Some True n Cons.prems show ?thesis by (simp add: Let_def)
        next
          case v: (Some v)
          let ?uc1 = "AList.delete (hd names) (AList.update (hd names @ str_nat n) v uc)"
          from Some True n v Cons.prems
          have "rename_overlaps E cm ks (?uc1, True) = Some (exc, uc', ch')" by (simp add: Let_def)
          moreover have "distinct (map fst ?uc1)"
            using Cons.prems(2) by (simp add: distinct_delete distinct_update)
          ultimately show ?thesis by (rule Cons.IH)
        qed
      qed
    qed
  qed
qed

lemma overlap_hd:
  assumes "overlap E user_cats l \<noteq> []"
  shows "hd (overlap E user_cats l) \<in> fst ` set user_cats \<and> icu_lower E (hd (overlap E user_cats l)) = l"
proof -
  from assms have "hd (overlap E user_cats l) \<in> set (overlap E user_cats l)" by (rule hd_in_set)
  then show ?thesis by (auto simp: overlap_def)
qed

lemma first_of_overlap_iff:
  "first_of_overlap E user_cats c \<longleftrightarrow>
     (\<exists>l \<in> icu_lower E ` fst ` set user_cats. 1 < length (overlap E user_cats l) \<and> c = hd (overlap E user_cats l))"
proof
  assume "first_of_overlap E user_cats c"
  then show "\<exists>l \<in> icu_lower E ` fst ` set user_cats. 1 < length (overlap E user_cats l) \<and> c = hd (overlap E user_cats l)"
    unfolding first_of_overlap_def by (intro bexI[of _ "icu_lower E c"]) auto
next
  assume "\<exists>l \<in> icu_lower E ` fst ` set user_cats. 1 < length (overlap E user_cats l) \<and> c = hd (overlap E user_cats l)"
  then obtain l where l: "1 < length (overlap E user_cats l)" "c = hd (overlap E user_cats l)" by blast
  then have "overlap E user_cats l \<noteq> []" by auto
  from overlap_hd[OF this] l show "first_of_overlap E user_cats c"
    unfolding first_of_overlap_def by auto
qed

lemma rename_user_categories_spec:
  fixes user_cats :: "'a pydict"
  assumes keys: "distinct (map fst user_cats)"
    and digits: "\<forall>s n. icu_lower E (s @ str_nat n) = icu_lower E s @ str_nat n"
    and ord: "\<forall>ks. distinct ks \<longrightarrow> distinct (order ks) \<and> set (order ks) = set ks"
  shows "\<exists>user_cats' ts.
           rename_user_categories E order user_cats = Some (None, user_cats', ts \<noteq> []) \<and>
           map_of user_cats' = fold (\<lambda>(c, n). rename_map c n) ts (map_of user_cats) \<and>
           distinct (map fst user_cats') \<and>
           distinct (map fst ts) \<and>
           fst ` set ts = {c. first_of_overlap E user_cats c} \<and>
           (\<forall>(c, n) \<in> set ts. least_free_suffix E (icu_lower E ` fst ` set user_cats) c n)"
proof -
  define cm where "cm = build_catmap E (map fst user_cats) []"
  define K where "K = icu_lower E ` fst ` set user_cats"
  let ?g = "overlap E user_cats"
  have Kcm: "fst ` set cm = K" unfolding cm_def K_def by (rule catmap_keys)
  have dcm: "distinct (map fst cm)" unfolding cm_def by (rule build_catmap_distinct) simp
  have ne: "?g l \<noteq> []" if "l \<in> K" for l
    using that overlap_empty[of E user_cats l] unfolding K_def by simp
  have cmf: "\<forall>l \<in> fst ` set cm. map_of cm l = Some (?g l) \<and> icu_lower E (hd (?g l)) = l"
  proof
    fix l assume "l \<in> fst ` set cm"
    then have "l \<in> K" using Kcm by simp
    from ne[OF this] overlap_hd[of E user_cats l]
    show "map_of cm l = Some (?g l) \<and> icu_lower E (hd (?g l)) = l"
      unfolding cm_def by (simp add: catmap_lookup)
  qed
  let ?ks = "order (map fst cm)"
  from ord dcm have ks: "distinct ?ks" "set ?ks = set (map fst cm)" by auto
  then have ksK: "set ?ks = K" using Kcm by simp
  have pre: "\<forall>l \<in> set ?ks. 1 < length (?g l) \<longrightarrow> map_of user_cats (hd (?g l)) \<noteq> None"
  proof (intro ballI impI)
    fix l assume "l \<in> set ?ks"
    then have "l \<in> K" using ksK by simp
    from overlap_hd[OF ne[OF this]] have "hd (?g l) \<in> fst ` set user_cats" by simp
    then show "map_of user_cats (hd (?g l)) \<noteq> None" by (simp add: map_of_eq_None_iff)
  qed
  have sub: "set ?ks \<subseteq> fst ` set cm" using ks(2) by simp
  from rename_overlaps_fold[OF digits cmf ks(1) sub pre, of False]
  obtain uc' ts where r:
    "rename_overlaps E cm ?ks (user_cats, False) = Some (None, uc', False \<or> ts \<noteq> [])"
    "map_of uc' = fold (\<lambda>(c, n). rename_map c n) ts (map_of user_cats)"
    "map fst ts = map (\<lambda>l. hd (?g l)) [l \<leftarrow> ?ks. 1 < length (?g l)]"
    "\<forall>(c, n) \<in> set ts. least_free_suffix E (fst ` set cm) c n" by blast
  have res: "rename_user_categories E order user_cats = Some (None, uc', ts \<noteq> [])"
    using r(1) unfolding rename_user_categories_def cm_def by (simp add: Let_def)
  have d': "distinct (map fst uc')" using rename_overlaps_distinct[OF r(1) keys] .
  have inj: "inj_on (\<lambda>l. hd (?g l)) (set [l \<leftarrow> ?ks. 1 < length (?g l)])"
  proof (rule inj_onI)
    fix a b assume a: "a \<in> set [l \<leftarrow> ?ks. 1 < length (?g l)]" and b: "b \<in> set [l \<leftarrow> ?ks. 1 < length (?g l)]"
      and e: "hd (?g a) = hd (?g b)"
    from a b ksK have "a \<in> K" "b \<in> K" by auto
    from overlap_hd[OF ne[OF this(1)]] overlap_hd[OF ne[OF this(2)]] e show "a = b" by metis
  qed
  have dts: "distinct (map fst ts)"
    unfolding r(3) using ks(1) inj by (simp add: distinct_map)
  have "fst ` set ts = set (map fst ts)" by simp
  also have "\<dots> = (\<lambda>l. hd (?g l)) ` {l \<in> K. 1 < length (?g l)}"
    unfolding r(3) using ksK by auto
  also have "\<dots> = {c. first_of_overlap E user_cats c}"
    unfolding first_of_overlap_iff K_def by auto
  finally have heads: "fst ` set ts = {c. first_of_overlap E user_cats c}" .
  from res r(2) d' dts heads r(4) show ?thesis unfolding Kcm K_def by blast
qed

lemma DBPrefs_set_stores:
  assumes "\<not> disable_setting p" "\<not> refused" "to_raw cd val = Inr raw"
  shows "\<exists>p'. DBPrefs_set cd refused key val p = (p', None) \<and>
              map_of (preferences p') key = Some raw \<and> DBPrefs_get p' key = Some val"
  using assms
  by (auto simp: DBPrefs_set_def DBPrefs_setitem_def setitem_trace_def insert_or_replace_def Let_def
      DBPrefs_get_def map_of_replace_row simp del: map_of_append)

lemma overlap_pair_first:
  fixes user_cats :: "'a pydict"
  assumes keys: "distinct (map fst user_cats)"
    and pairs: "length (overlap E user_cats (icu_lower E x)) \<le> 2"
    and x: "x \<in> fst ` set user_cats" and y: "y \<in> fst ` set user_cats"
    and low: "icu_lower E x = icu_lower E y" and ne: "x \<noteq> y"
  shows "first_of_overlap E user_cats x \<or> first_of_overlap E user_cats y"
proof -
  let ?g = "overlap E user_cats (icu_lower E x)"
  have d: "distinct ?g" unfolding overlap_def using keys by simp
  have xin: "x \<in> set ?g" and yin: "y \<in> set ?g" using x y low by (auto simp: overlap_def)
  with ne d have "card (set ?g) \<ge> 2"
    by (metis card_2_iff' card_mono finite_set insert_subset empty_subsetI[of "set ?g"] List.finite_set
        card_le_Suc0_iff_eq not_less_eq_eq numeral_2_eq_2)
  with d have len: "1 < length ?g" by (simp add: distinct_card)
  then have "?g \<noteq> []" by auto
  then obtain a as where g: "?g = a # as" by (cases ?g) auto
  with len pairs obtain b where g2: "?g = [a, b]" by (cases as) auto
  from xin yin g2 ne have "a = x \<or> a = y" by auto
  with g len x y low show ?thesis unfolding first_of_overlap_def by auto
qed

lemma rename_user_categories_pointwise:
  fixes user_cats :: "'a pydict"
  assumes keys: "distinct (map fst user_cats)"
    and digits: "\<forall>s n. icu_lower E (s @ str_nat n) = icu_lower E s @ str_nat n"
    and ord: "\<forall>ks. distinct ks \<longrightarrow> distinct (order ks) \<and> set (order ks) = set ks"
    and pairs: "\<forall>l. length (overlap E user_cats l) \<le> 2"
    and apart: "\<forall>c c' n n'. first_of_overlap E user_cats c \<and> first_of_overlap E user_cats c' \<and> c \<noteq> c'
                 \<longrightarrow> icu_lower E (c @ str_nat n) \<noteq> icu_lower E (c' @ str_nat n')"
  shows "\<exists>user_cats'.
           rename_user_categories E order user_cats
             = Some (None, user_cats', \<exists>c. first_of_overlap E user_cats c) \<and>
           distinct (map fst user_cats') \<and>
           (\<forall>c. first_of_overlap E user_cats c \<longrightarrow>
                map_of user_cats' c = None \<and>
                (\<exists>n. least_free_suffix E (icu_lower E ` fst ` set user_cats) c n \<and>
                     map_of user_cats' (c @ str_nat n) = map_of user_cats c)) \<and>
           (\<forall>x \<in> fst ` set user_cats.
                \<not> first_of_overlap E user_cats x \<longrightarrow> map_of user_cats' x = map_of user_cats x) \<and>
           (\<forall>x y. x \<in> fst ` set user_cats' \<and> y \<in> fst ` set user_cats' \<and>
                  icu_lower E x = icu_lower E y \<longrightarrow> x = y)"
proof -
  let ?K = "icu_lower E ` fst ` set user_cats"
  from rename_user_categories_spec[OF keys digits ord]
  obtain uc' ts where r:
    "rename_user_categories E order user_cats = Some (None, uc', ts \<noteq> [])"
    "map_of uc' = fold (\<lambda>(c, n). rename_map c n) ts (map_of user_cats)"
    "distinct (map fst uc')" "distinct (map fst ts)"
    "fst ` set ts = {c. first_of_overlap E user_cats c}"
    "\<forall>(c, n) \<in> set ts. least_free_suffix E ?K c n" by blast
  have head_low: "icu_lower E c \<in> ?K" if "(c, n) \<in> set ts" for c n
  proof -
    from that r(5) have "first_of_overlap E user_cats c" by force
    then show ?thesis unfolding first_of_overlap_def by auto
  qed
  have head_first: "first_of_overlap E user_cats c" if "(c, n) \<in> set ts" for c n
    using that r(5) by force
  have target_low: "icu_lower E (c @ str_nat n) \<notin> ?K" if "(c, n) \<in> set ts" for c n
  proof -
    from that r(6) have "least_free_suffix E ?K c n" by blast
    then show ?thesis unfolding least_free_suffix_def by blast
  qed
  have not_target: "\<forall>(c, n) \<in> set ts. x \<noteq> c @ str_nat n" if "icu_lower E x \<in> ?K" for x
    using that target_low by auto
  have changed: "(ts \<noteq> []) = (\<exists>c. first_of_overlap E user_cats c)"
  proof -
    have "(ts \<noteq> []) = (fst ` set ts \<noteq> {})" by auto
    then show ?thesis unfolding r(5) by auto
  qed
  have firsts: "map_of uc' c = None \<and>
                (\<exists>n. least_free_suffix E ?K c n \<and> map_of uc' (c @ str_nat n) = map_of user_cats c)"
    if f: "first_of_overlap E user_cats c" for c
  proof -
    from f r(5) obtain n where cn: "(c, n) \<in> set ts" by force
    have lowc: "icu_lower E c \<in> ?K" using cn by (rule head_low)
    have h1: "\<forall>(c', n') \<in> set ts. c \<noteq> c' @ str_nat n'" using not_target[OF lowc] .
    have a: "map_of uc' c = None" unfolding r(2) using cn r(4) h1 by (rule fold_rename_head)
    have h3: "\<forall>(c', n') \<in> set ts. c \<noteq> c' @ str_nat n' \<and> c @ str_nat n \<noteq> c'"
    proof (intro ballI, clarify, intro conjI)
      fix c' n' assume m: "(c', n') \<in> set ts"
      from h1 m show "c \<noteq> c' @ str_nat n'" by auto
      from head_low[OF m] target_low[OF cn] show "c @ str_nat n \<noteq> c'" by auto
    qed
    have h4: "\<forall>(c', n') \<in> set ts. c' \<noteq> c \<longrightarrow> c' @ str_nat n' \<noteq> c @ str_nat n"
    proof (intro ballI, clarify)
      fix c' n' assume m: "(c', n') \<in> set ts" and ne: "c' \<noteq> c" and e: "c' @ str_nat n' = c @ str_nat n"
      from apart f head_first[OF m] ne have "icu_lower E (c @ str_nat n) \<noteq> icu_lower E (c' @ str_nat n')"
        by blast
      with e show False by simp
    qed
    have b: "map_of uc' (c @ str_nat n) = map_of user_cats c"
      unfolding r(2) using cn r(4) h3 h4 by (rule fold_rename_target)
    from r(6) cn have "least_free_suffix E ?K c n" by auto
    with a b show ?thesis by blast
  qed
  have others: "map_of uc' x = map_of user_cats x"
    if x: "x \<in> fst ` set user_cats" and nf: "\<not> first_of_overlap E user_cats x" for x
  proof -
    have "icu_lower E x \<in> ?K" using x by auto
    from not_target[OF this] nf head_first
    have "\<forall>(c, n) \<in> set ts. x \<noteq> c \<and> x \<noteq> c @ str_nat n" by auto
    then show ?thesis unfolding r(2) by (rule fold_rename_other)
  qed
  have kinds: "(x \<in> fst ` set user_cats \<and> \<not> first_of_overlap E user_cats x) \<or>
               (\<exists>(c, n) \<in> set ts. x = c @ str_nat n)"
    if x: "x \<in> fst ` set uc'" for x
  proof (rule ccontr)
    assume c: "\<not> ?thesis"
    from x have some: "map_of uc' x \<noteq> None" by (simp add: map_of_eq_None_iff)
    show False
    proof (cases "first_of_overlap E user_cats x")
      case True
      from firsts[OF this] some show False by simp
    next
      case False
      with c head_first have "\<forall>(c, n) \<in> set ts. x \<noteq> c \<and> x \<noteq> c @ str_nat n" by auto
      then have "map_of uc' x = map_of user_cats x" unfolding r(2) by (rule fold_rename_other)
      with some have "x \<in> fst ` set user_cats" by (simp add: map_of_eq_None_iff)
      with c False show False by simp
    qed
  qed
  have nocoll: "x = y"
    if x: "x \<in> fst ` set uc'" and y: "y \<in> fst ` set uc'" and low: "icu_lower E x = icu_lower E y" for x y
  proof -
    from kinds[OF x] kinds[OF y] show ?thesis
    proof (elim disjE)
      assume a: "x \<in> fst ` set user_cats \<and> \<not> first_of_overlap E user_cats x"
        and b: "y \<in> fst ` set user_cats \<and> \<not> first_of_overlap E user_cats y"
      show ?thesis
      proof (rule ccontr)
        assume "x \<noteq> y"
        from overlap_pair_first[OF keys _ _ _ low this] pairs a b show False by blast
      qed
    next
      assume a: "x \<in> fst ` set user_cats \<and> \<not> first_of_overlap E user_cats x"
        and b: "\<exists>(c, n) \<in> set ts. y = c @ str_nat n"
      from a have "icu_lower E x \<in> ?K" by auto
      moreover from b target_low have "icu_lower E y \<notin> ?K" by auto
      ultimately show ?thesis using low by simp
    next
      assume b: "y \<in> fst ` set user_cats \<and> \<not> first_of_overlap E user_cats y"
        and a: "\<exists>(c, n) \<in> set ts. x = c @ str_nat n"
      from b have "icu_lower E y \<in> ?K" by auto
      moreover from a target_low have "icu_lower E x \<notin> ?K" by auto
      ultimately show ?thesis using low by simp
    next
      assume "\<exists>(c, n) \<in> set ts. x = c @ str_nat n" and "\<exists>(c, n) \<in> set ts. y = c @ str_nat n"
      then obtain c n c' n' where cn: "(c, n) \<in> set ts" "x = c @ str_nat n"
        and cn': "(c', n') \<in> set ts" "y = c' @ str_nat n'" by blast
      show ?thesis
      proof (cases "c = c'")
        case True
        with cn(1) cn'(1) r(4) have "n = n'" by (metis eq_key_imp_eq_value)
        with True cn cn' show ?thesis by simp
      next
        case False
        with apart head_first[OF cn(1)] head_first[OF cn'(1)]
        have "icu_lower E (c @ str_nat n) \<noteq> icu_lower E (c' @ str_nat n')" by blast
        with low cn cn' show ?thesis by simp
      qed
    qed
  qed
  from r(1) r(3) changed firsts others nocoll show ?thesis by auto
qed

lemma ascii_lower_append: "ascii_lower (s @ t) = ascii_lower s @ ascii_lower t"
  by (simp add: ascii_lower_def)

lemma digit_not_upper:
  assumes "c \<in> set ''0123456789''"
  shows "map_of (zip ''ABCDEFGHIJKLMNOPQRSTUVWXYZ'' ''abcdefghijklmnopqrstuvwxyz'') c = None"
proof -
  from assms have "c \<notin> set ''ABCDEFGHIJKLMNOPQRSTUVWXYZ''" by auto
  then show ?thesis by (simp add: map_of_zip_is_None)
qed

lemma ascii_lower_digits: "set s \<subseteq> set ''0123456789'' \<Longrightarrow> ascii_lower s = s"
proof (induction s)
  case Nil
  show ?case by (simp add: ascii_lower_def)
next
  case (Cons c s)
  then have "c \<in> set ''0123456789''" and "set s \<subseteq> set ''0123456789''" by simp_all
  with Cons.IH digit_not_upper[of c] show ?case by (simp add: ascii_lower_def)
qed

lemma posix_lower_digits:
  "\<forall>s n. icu_lower posix_env (s @ str_nat n) = icu_lower posix_env s @ str_nat n"
proof (intro allI)
  fix s n
  have "ascii_lower (str_nat n) = str_nat n" using str_nat_digits by (rule ascii_lower_digits)
  then show "icu_lower posix_env (s @ str_nat n) = icu_lower posix_env s @ str_nat n"
    by (simp add: posix_env_def ascii_lower_append)
qed

lemma example_lowered:
  "icu_lower posix_env ''News'' = ''news''" "icu_lower posix_env ''news'' = ''news''"
  "icu_lower posix_env ''Art'' = ''art''"
  by code_simp+

lemma example_overlap:
  "overlap posix_env example_cats l =
     (if l = ''news'' then [''News'', ''news''] else if l = ''art'' then [''Art''] else [])"
  by (simp add: overlap_def example_cats_def example_lowered)

lemma example_first: "first_of_overlap posix_env example_cats c \<longleftrightarrow> c = ''News''"
proof
  assume f: "first_of_overlap posix_env example_cats c"
  then have "c = ''News'' \<or> c = ''news'' \<or> c = ''Art''"
    by (auto simp: first_of_overlap_def example_cats_def)
  then show "c = ''News''"
  proof (elim disjE)
    assume "c = ''news''"
    with f show ?thesis by (simp add: first_of_overlap_def example_overlap example_lowered)
  next
    assume "c = ''Art''"
    with f show ?thesis by (simp add: first_of_overlap_def example_overlap example_lowered)
  qed
next
  assume "c = ''News''"
  then show "first_of_overlap posix_env example_cats c"
    by (simp add: first_of_overlap_def example_overlap example_lowered) (simp add: example_cats_def)
qed

lemma example_least_free:
  "least_free_suffix posix_env (icu_lower posix_env ` fst ` set example_cats) ''News'' 1"
proof -
  have "icu_lower posix_env (''News'' @ str_nat 1) = ''news1''" by code_simp
  then show ?thesis
    by (simp add: least_free_suffix_def example_cats_def example_lowered)
qed

text \<open>
  C4, as amended.  Let the names of \<open>user_categories\<close> collide in pairs at most, let
  lower-casing leave an appended number as it is, and let the first names of different
  pairs stay apart when numbers are appended.  Then the end of \<open>initialize_prefs\<close>
  returns, and for every colliding pair it renames the name that comes first in the
  iteration, and only that one: the name goes, and its value is found under the name
  followed by the smallest positive number for which the lower-cased new name is not the
  lower-cased form of a name of the dictionary; every other name keeps its value.  No two
  names of the result collide.  When a name was renamed, the dictionary is written to the
  table of the preferences.
\<close>

theorem user_categories_case_repair:
  fixes p :: "'a pydict DBPrefs"
  assumes "DBPrefs_get p ''user_categories'' = Some user_cats"
    and "distinct (map fst user_cats)"
    and "\<forall>s n. icu_lower E (s @ str_nat n) = icu_lower E s @ str_nat n"
    and "\<forall>ks. distinct ks \<longrightarrow> distinct (order ks) \<and> set (order ks) = set ks"
    and "\<forall>l. length (overlap E user_cats l) \<le> 2"
    and "\<forall>c c' n n'. first_of_overlap E user_cats c \<and> first_of_overlap E user_cats c' \<and> c \<noteq> c'
           \<longrightarrow> icu_lower E (c @ str_nat n) \<noteq> icu_lower E (c' @ str_nat n')"
    and "\<not> disable_setting p" and "\<not> refused" and "\<forall>d. \<exists>raw. to_raw cd d = Inr raw"
  shows "\<exists>user_cats' p'.
           repair_user_categories cd refused E order p = Some (p', None) \<and>
           DBPrefs_get p' ''user_categories'' = Some user_cats' \<and>
           distinct (map fst user_cats') \<and>
           (\<forall>c. first_of_overlap E user_cats c \<longrightarrow>
                map_of user_cats' c = None \<and>
                (\<exists>n. least_free_suffix E (icu_lower E ` fst ` set user_cats) c n \<and>
                     map_of user_cats' (c @ str_nat n) = map_of user_cats c)) \<and>
           (\<forall>x \<in> fst ` set user_cats.
                \<not> first_of_overlap E user_cats x \<longrightarrow> map_of user_cats' x = map_of user_cats x) \<and>
           (\<forall>x y. x \<in> fst ` set user_cats' \<and> y \<in> fst ` set user_cats' \<and>
                  icu_lower E x = icu_lower E y \<longrightarrow> x = y) \<and>
           ((\<exists>c. first_of_overlap E user_cats c) \<longrightarrow>
              (\<exists>raw. to_raw cd user_cats' = Inr raw \<and>
                     map_of (preferences p') ''user_categories'' = Some raw))"
proof -
  from rename_user_categories_pointwise[OF assms(2-6)]
  obtain uc' where r:
    "rename_user_categories E order user_cats = Some (None, uc', \<exists>c. first_of_overlap E user_cats c)"
    and d: "distinct (map fst uc')"
    and f: "\<forall>c. first_of_overlap E user_cats c \<longrightarrow>
                map_of uc' c = None \<and>
                (\<exists>n. least_free_suffix E (icu_lower E ` fst ` set user_cats) c n \<and>
                     map_of uc' (c @ str_nat n) = map_of user_cats c)"
    and o: "\<forall>x \<in> fst ` set user_cats.
                \<not> first_of_overlap E user_cats x \<longrightarrow> map_of uc' x = map_of user_cats x"
    and n: "\<forall>x y. x \<in> fst ` set uc' \<and> y \<in> fst ` set uc' \<and> icu_lower E x = icu_lower E y \<longrightarrow> x = y"
    by blast
  define p1 where "p1 = p\<lparr>items := (items p)(''user_categories'' \<mapsto> uc')\<rparr>"
  have g1: "DBPrefs_get p1 ''user_categories'' = Some uc'" by (simp add: p1_def DBPrefs_get_def)
  have nd: "\<not> disable_setting p1" using assms(7) by (simp add: p1_def)
  from assms(9) obtain raw where raw: "to_raw cd uc' = Inr raw" by blast
  show ?thesis
  proof (cases "\<exists>c. first_of_overlap E user_cats c")
    case True
    from DBPrefs_set_stores[OF nd assms(8) raw, of "''user_categories''"] obtain p' where
      p': "DBPrefs_set cd refused ''user_categories'' uc' p1 = (p', None)"
        "map_of (preferences p') ''user_categories'' = Some raw"
        "DBPrefs_get p' ''user_categories'' = Some uc'" by blast
    have "repair_user_categories cd refused E order p = Some (p', None)"
      using assms(1) r True p'(1) by (simp add: repair_user_categories_def p1_def)
    with p' raw d f o n show ?thesis by blast
  next
    case False
    have "repair_user_categories cd refused E order p = Some (p1, None)"
      using assms(1) r False by (simp add: repair_user_categories_def p1_def)
    with g1 d f o n False show ?thesis by blast
  qed
qed

text \<open>
  Witness for C4: the user categories \<open>News\<close>, \<open>news\<close> and \<open>Art\<close>.  \<open>News\<close> comes first of
  the colliding pair and becomes \<open>News1\<close>; \<open>news\<close> and \<open>Art\<close> stay; the dictionary is
  written to the table.
\<close>

theorem user_categories_case_repair_witness:
  "\<exists>user_cats' p'.
     repair_user_categories example_dict_codec False posix_env keep_order example_cats_prefs
       = Some (p', None) \<and>
     DBPrefs_get p' ''user_categories'' = Some user_cats' \<and>
     map_of user_cats' ''News'' = None \<and>
     map_of user_cats' ''News1'' = Some [''a''] \<and>
     map_of user_cats' ''news'' = Some [''b''] \<and>
     map_of user_cats' ''Art'' = Some [''c''] \<and>
     (\<exists>raw. to_raw example_dict_codec user_cats' = Inr raw \<and>
            map_of (preferences p') ''user_categories'' = Some raw)"
proof -
  have h1: "DBPrefs_get example_cats_prefs ''user_categories'' = Some example_cats"
    by (simp add: DBPrefs_get_def example_cats_prefs_def)
  have h2: "distinct (map fst example_cats)" by (simp add: example_cats_def)
  have h4: "\<forall>ks. distinct ks \<longrightarrow> distinct (keep_order ks) \<and> set (keep_order ks) = set ks"
    by (simp add: keep_order_def)
  have h5: "\<forall>l. length (overlap posix_env example_cats l) \<le> 2" by (simp add: example_overlap)
  have h6: "\<forall>c c' n n'. first_of_overlap posix_env example_cats c \<and>
              first_of_overlap posix_env example_cats c' \<and> c \<noteq> c'
           \<longrightarrow> icu_lower posix_env (c @ str_nat n) \<noteq> icu_lower posix_env (c' @ str_nat n')"
    by (simp add: example_first)
  have h7: "\<not> disable_setting example_cats_prefs" by (simp add: example_cats_prefs_def)
  have h8: "\<not> False" by simp
  have h9: "\<forall>d. \<exists>raw. to_raw example_dict_codec d = Inr raw" by (simp add: example_dict_codec_def)
  from user_categories_case_repair [OF h1 h2 posix_lower_digits h4 h5 h6 h7 h8 h9]
  obtain uc' p' where r:
    "repair_user_categories example_dict_codec False posix_env keep_order example_cats_prefs = Some (p', None)"
    "DBPrefs_get p' ''user_categories'' = Some uc'"
    and f: "\<forall>c. first_of_overlap posix_env example_cats c \<longrightarrow>
                map_of uc' c = None \<and>
                (\<exists>n. least_free_suffix posix_env (icu_lower posix_env ` fst ` set example_cats) c n \<and>
                     map_of uc' (c @ str_nat n) = map_of example_cats c)"
    and o: "\<forall>x \<in> fst ` set example_cats.
                \<not> first_of_overlap posix_env example_cats x \<longrightarrow> map_of uc' x = map_of example_cats x"
    and w: "(\<exists>c. first_of_overlap posix_env example_cats c) \<longrightarrow>
              (\<exists>raw. to_raw example_dict_codec uc' = Inr raw \<and>
                     map_of (preferences p') ''user_categories'' = Some raw)"
    by blast
  have fn: "first_of_overlap posix_env example_cats ''News''" by (simp add: example_first)
  from f fn obtain n where a: "map_of uc' ''News'' = None"
    and l: "least_free_suffix posix_env (icu_lower posix_env ` fst ` set example_cats) ''News'' n"
    and t: "map_of uc' (''News'' @ str_nat n) = map_of example_cats ''News''" by blast
  from least_free_unique[OF l example_least_free] have "n = 1" .
  moreover have "str_nat 1 = ''1''" by code_simp
  ultimately have b: "map_of uc' ''News1'' = Some [''a'']" using t by (simp add: example_cats_def)
  have c: "map_of uc' ''news'' = Some [''b'']"
    using o by (simp add: example_first) (simp add: example_cats_def)
  have d: "map_of uc' ''Art'' = Some [''c'']"
    using o by (simp add: example_first) (simp add: example_cats_def)
  from w fn have e: "\<exists>raw. to_raw example_dict_codec uc' = Inr raw \<and>
                     map_of (preferences p') ''user_categories'' = Some raw" by blast
  from r a b c d e show ?thesis by blast
qed

text \<open>
  Counterexample to C4 as stated (all but the first colliding name are renamed, and one
  canonical name remains with uniquely suffixed duplicates).  Of the three colliding
  names \<open>Foo\<close>, \<open>foo\<close> and \<open>FOO\<close> the loop renames the first, \<open>Foo\<close>, to \<open>Foo1\<close>, and leaves \<open>foo\<close>
  and \<open>FOO\<close>, which still collide.
\<close>

theorem user_categories_three_names_counterexample:
  "rename_user_categories posix_env keep_order
       [(''Foo'', [''a'']), (''foo'', [''b'']), (''FOO'', [''c''])]
     = Some (None, [(''foo'', [''b'']), (''FOO'', [''c'']), (''Foo1'', [''a''])], True) \<and>
   icu_lower posix_env ''foo'' = icu_lower posix_env ''FOO''"
  by code_simp

end
